theory Spec2Isabelle
  imports Complex_Main
begin

section \<open>Python values and errors\<close>

text \<open>
  Exceptions of the Python source are values: every function that can raise returns
  \<open>error + 'a\<close>, with \<open>Inl\<close> carrying the exception.
\<close>

datatype error =
    ZeroDivisionError
  | ValueError
  | IndexError
  | KeyError
  | AttributeError
  | TypeError
  | RuntimeError
  | ProcessExit
  | UnrecognizedQType
  | NonFinite

text \<open>
  \<open>UnrecognizedQType\<close> marks the last branch of \<open>quantize\<close> and \<open>dequantize\<close>
  (\<open>raise NotImplemented('Unrecognized q_type')\<close>), kept apart from the other errors so
  that the branch can be traced. \<open>NonFinite\<close> is not an exception: it marks a floating
  point result that is \<open>inf\<close> or \<open>nan\<close> (a division by zero on arrays), after which the
  values the source computes are not numbers.
\<close>

text \<open>
  \<open>int(a / b)\<close> on Python integers: true division followed by truncation toward zero.
  The quotient is taken exactly (the source goes through a double, which is exact for
  the multiples of \<open>b\<close> below \<open>2^53\<close> that occur here).
\<close>

definition int_truediv :: "int \<Rightarrow> int \<Rightarrow> error + int" where
  "int_truediv a b =
     (if b = 0 then Inl ZeroDivisionError
      else Inr (sgn a * sgn b * (\<bar>a\<bar> div \<bar>b\<bar>)))"

section \<open>Alignment lengths: \<open>SampleRNNDataset._get_model_len\<close>\<close>

text \<open>
  \<open>frame_size\<close> and \<open>sequence_length\<close> are the two entries of \<open>conf.architecture\<close>
  the method reads; \<open>return_full_utterance\<close> is the dataset's flag. Python's \<open>//\<close> on
  integers is floor division, which is \<open>div\<close> on \<open>int\<close>; a zero divisor raises.
  The result is the pair (samples, frames).
\<close>

definition get_model_len :: "int \<Rightarrow> int \<Rightarrow> bool \<Rightarrow> int \<Rightarrow> error + (int \<times> int)" where
  "get_model_len frame_size sequence_length return_full_utterance utterance_wav_len_real =
     (let samples_per_forward = frame_size * sequence_length in
      if samples_per_forward = 0 then Inl ZeroDivisionError
      else
        let next_seq_length_mult =
              (if \<not> return_full_utterance
               then (utterance_wav_len_real div samples_per_forward) * samples_per_forward
               else ((utterance_wav_len_real div samples_per_forward) + 1) * samples_per_forward)
        in case int_truediv next_seq_length_mult frame_size of
             Inl e \<Rightarrow> Inl e
           | Inr frames \<Rightarrow> Inr (next_seq_length_mult, frames))"

section \<open>Quantization codec: \<open>SampleRNNQuantizer\<close>\<close>

text \<open>
  Configuration values are Python objects. Only the kinds a quantizer configuration
  holds are modelled; \<open>True\<close> and \<open>False\<close> are the integers 1 and 0 (\<open>bool\<close> is a
  subclass of \<open>int\<close> and behaves as such in every operation used here).
\<close>

datatype pyval = PyNone | PyInt int | PyStr string

fun truthy :: "pyval \<Rightarrow> bool" where
  "truthy PyNone = False"
| "truthy (PyInt i) = (i \<noteq> 0)"
| "truthy (PyStr s) = (s \<noteq> [])"

definition LINEAR_QUANT :: int where "LINEAR_QUANT = 0"
definition ULAW_QUANT :: int where "ULAW_QUANT = 1"

definition EPSILON :: real where "EPSILON = 1 / 10 ^ 2"
definition EPSILONs :: real where "EPSILONs = 1 / 10 ^ 6"
definition MU :: real where "MU = 255"
definition LOG_MU1 :: real where "LOG_MU1 = 55451774444795623 / 10 ^ 16"

record quantizer =
  q_type :: int
  q_levels :: pyval

text \<open>
  \<open>__init__\<close> reads two keys of the dictionary \<open>conf.quantizer\<close>; a missing key raises
  \<open>KeyError\<close>. The strategy is whatever the truth value of \<open>q_type_ulaw\<close> selects.
\<close>

definition quantizer_init :: "(string \<rightharpoonup> pyval) \<Rightarrow> error + quantizer" where
  "quantizer_init conf_quantizer =
     (case conf_quantizer ''q_type_ulaw'' of
        None \<Rightarrow> Inl KeyError
      | Some flag \<Rightarrow>
          (case conf_quantizer ''q_levels'' of
             None \<Rightarrow> Inl KeyError
           | Some levels \<Rightarrow>
               Inr \<lparr>q_type = (if truthy flag then ULAW_QUANT else LINEAR_QUANT),
                    q_levels = levels\<rparr>))"

text \<open>
  Arithmetic on \<open>self.q_levels\<close>: an integer takes part in it, \<open>None\<close> and strings
  raise \<open>TypeError\<close>.
\<close>

definition levels_of :: "quantizer \<Rightarrow> error + int" where
  "levels_of q = (case q_levels q of PyInt n \<Rightarrow> Inr n | _ \<Rightarrow> Inl TypeError)"

definition quantize_zero :: "quantizer \<Rightarrow> error + int" where
  "quantize_zero q = (case levels_of q of Inl e \<Rightarrow> Inl e | Inr n \<Rightarrow> Inr (n div 2))"

text \<open>
  A tensor of samples is a list of reals: the operations on tensors are taken exactly
  (the one rounding that is modelled is that of the scalar of \<open>midrise\<close>, below).
  \<open>.long()\<close> converts to integers by truncation toward zero. Dividing a tensor by zero
  raises nothing and leaves \<open>inf\<close> or \<open>nan\<close>; \<open>tensor_div\<close> reports that as \<open>NonFinite\<close>.
\<close>

definition long :: "real \<Rightarrow> int" where
  "long x = (if 0 \<le> x then \<lfloor>x\<rfloor> else \<lceil>x\<rceil>)"

definition tensor_div :: "real list \<Rightarrow> real \<Rightarrow> error + real list" where
  "tensor_div xs d = (if d = 0 \<and> xs \<noteq> [] then Inl NonFinite else Inr (map (\<lambda>x. x / d) xs))"

definition linear_quantize :: "quantizer \<Rightarrow> real list \<Rightarrow> error + int list" where
  "linear_quantize q samples =
     (if samples = [] then Inl RuntimeError
      else
        let shifted = map (\<lambda>x. x - Min (set samples)) samples;
            scaled = tensor_div shifted (Max (set shifted))
        in case levels_of q of
             Inl e \<Rightarrow> Inl e
           | Inr n \<Rightarrow>
               (case scaled of
                  Inl e \<Rightarrow> Inl e
                | Inr ys \<Rightarrow>
                    Inr (map (\<lambda>y. long (y * (of_int n - EPSILON) + EPSILON / 2)) ys)))"

definition linear_dequantize :: "quantizer \<Rightarrow> int list \<Rightarrow> error + real list" where
  "linear_dequantize q samples =
     (case levels_of q of
        Inl e \<Rightarrow> Inl e
      | Inr n \<Rightarrow>
          (case tensor_div (map of_int samples) (of_int n / 2) of
             Inl e \<Rightarrow> Inl e
           | Inr ys \<Rightarrow> Inr (map (\<lambda>y. y - 1) ys)))"

definition ulaw :: "real list \<Rightarrow> real list" where
  "ulaw xs = (let v = MU / 1 in map (\<lambda>x. sgn x * ln (v * \<bar>x\<bar> + 1) / LOG_MU1) xs)"

definition iulaw :: "real list \<Rightarrow> real list" where
  "iulaw cs = map (\<lambda>c. sgn c * (exp (\<bar>c\<bar> * LOG_MU1) - 1) / MU) cs"

text \<open>
  \<open>midrise\<close> multiplies the tensor in place by the Python scalar
  \<open>self.q_levels - self._EPSILONs\<close>, which torch first converts to the tensor's dtype.
  The dtype of the samples is the caller's choice (float32 is torch's default), so it is
  a parameter. A double is taken exactly; a float32 keeps 24 significant bits, and
  \<open>round_to_float32\<close> is the nearest such number (a tie goes up; overflow and
  subnormal numbers are not modelled). From 33 levels on the float32 nearest to
  \<open>q_levels - 1e-6\<close> is \<open>q_levels\<close> itself, so that the epsilon is lost.
\<close>

datatype dtype = Float32 | Float64

definition round_to_float32 :: "real \<Rightarrow> real" where
  "round_to_float32 v =
     (if v = 0 then 0
      else let ulp = 2 powr (of_int \<lfloor>log 2 \<bar>v\<bar>\<rfloor> - 23)
           in of_int (round (v / ulp)) * ulp)"

definition scalar_in :: "dtype \<Rightarrow> real \<Rightarrow> real" where
  "scalar_in dt v = (case dt of Float32 \<Rightarrow> round_to_float32 v | Float64 \<Rightarrow> v)"

definition midrise :: "dtype \<Rightarrow> quantizer \<Rightarrow> real list \<Rightarrow> error + int list" where
  "midrise dt q xs =
     (case levels_of q of
        Inl e \<Rightarrow> Inl e
      | Inr n \<Rightarrow>
          Inr (map (\<lambda>x. long ((1 / 2) * (x + 1) * scalar_in dt (of_int n - EPSILONs))) xs))"

definition imidrise :: "quantizer \<Rightarrow> int list \<Rightarrow> error + real list" where
  "imidrise q xq =
     (case levels_of q of
        Inl e \<Rightarrow> Inl e
      | Inr n \<Rightarrow>
          (case tensor_div (map (\<lambda>s. of_int s * 2) xq) (of_int n) of
             Inl e \<Rightarrow> Inl e
           | Inr ys \<Rightarrow> Inr (map (\<lambda>y. y - 1) ys)))"

definition ulaw_quantize :: "dtype \<Rightarrow> quantizer \<Rightarrow> real list \<Rightarrow> error + int list" where
  "ulaw_quantize dt q samples = midrise dt q (ulaw samples)"

definition ulaw_dequantize :: "quantizer \<Rightarrow> int list \<Rightarrow> error + real list" where
  "ulaw_dequantize q samples =
     (case imidrise q samples of Inl e \<Rightarrow> Inl e | Inr cs \<Rightarrow> Inr (iulaw cs))"

definition quantize :: "dtype \<Rightarrow> quantizer \<Rightarrow> real list \<Rightarrow> error + int list" where
  "quantize dt q samples =
     (if q_type q = LINEAR_QUANT then linear_quantize q samples
      else if q_type q = ULAW_QUANT then ulaw_quantize dt q samples
      else Inl UnrecognizedQType)"

definition dequantize :: "quantizer \<Rightarrow> int list \<Rightarrow> error + real list" where
  "dequantize q samples =
     (if q_type q = LINEAR_QUANT then linear_dequantize q samples
      else if q_type q = ULAW_QUANT then ulaw_dequantize q samples
      else Inl UnrecognizedQType)"

section \<open>Arrays and strings of the dataset code\<close>

text \<open>
  A two-dimensional numpy array is its column count and its list of rows; the column
  count is kept because an array with no rows still has one (shape \<open>(0, c)\<close>).
  Every array built below has rows of length \<open>ncols\<close>.
\<close>

record array2 =
  ncols :: nat
  rows :: "real list list"

definition shape0 :: "array2 \<Rightarrow> nat" where
  "shape0 a = length (rows a)"

definition wf_array :: "array2 \<Rightarrow> bool" where
  "wf_array a = list_all (\<lambda>r. length r = ncols a) (rows a)"

text \<open>\<open>np.zeros((r, c))\<close>: a negative dimension raises \<open>ValueError\<close>.\<close>

definition zeros :: "int \<Rightarrow> int \<Rightarrow> error + array2" where
  "zeros r c =
     (if r < 0 \<or> c < 0 then Inl ValueError
      else Inr \<lparr>ncols = nat c, rows = replicate (nat r) (replicate (nat c) 0)\<rparr>)"

text \<open>
  Python slices on an axis of length \<open>n\<close>: \<open>a[:k]\<close> keeps \<open>slice_upto n k\<close> leading
  entries and \<open>a[k:]\<close> starts at \<open>slice_start n k\<close>; a negative \<open>k\<close> counts from the end,
  and both are clipped to the axis.
\<close>

definition slice_upto :: "nat \<Rightarrow> int \<Rightarrow> nat" where
  "slice_upto n k = (if 0 \<le> k then min (nat k) n else nat (int n + k))"

definition slice_start :: "nat \<Rightarrow> int \<Rightarrow> nat" where
  "slice_start n k = (if 0 \<le> k then min (nat k) n else nat (int n + k))"

text \<open>
  \<open>target[:r, c0:c0+tc] = value\<close> for a value of \<open>r\<close> rows: numpy copies when the value
  has \<open>tc\<close> columns, repeats its single column when it has one, and raises \<open>ValueError\<close>
  (shapes cannot be broadcast) otherwise.
\<close>

definition spread :: "nat \<Rightarrow> nat \<Rightarrow> real list \<Rightarrow> real list" where
  "spread vc tc v = (if vc = tc then v else replicate tc (hd v))"

definition assign_block :: "array2 \<Rightarrow> nat \<Rightarrow> nat \<Rightarrow> nat \<Rightarrow> array2 \<Rightarrow> error + array2" where
  "assign_block target r c0 tc val =
     (if ncols val \<noteq> tc \<and> ncols val \<noteq> 1 then Inl ValueError
      else Inr (target\<lparr>rows :=
             map (\<lambda>(old, v). take c0 old @ spread (ncols val) tc v @ drop (c0 + tc) old)
                 (zip (take r (rows target)) (rows val))
             @ drop r (rows target)\<rparr>))"

text \<open>\<open>a[:r, :]\<close> and \<open>a[:, -2:]\<close>.\<close>

definition take_rows :: "nat \<Rightarrow> array2 \<Rightarrow> array2" where
  "take_rows r a = a\<lparr>rows := take r (rows a)\<rparr>"

definition last_two_cols :: "array2 \<Rightarrow> array2" where
  "last_two_cols a =
     \<lparr>ncols = ncols a - slice_start (ncols a) (- 2),
      rows = map (drop (slice_start (ncols a) (- 2))) (rows a)\<rparr>"

text \<open>
  Decimal strings. \<open>str_of_int\<close> is Python's \<open>str\<close> on an integer. \<open>py_int\<close> is \<open>int(s)\<close>
  and \<open>np_float\<close> is the conversion of \<open>astype(np.float)\<close>: both are modelled on the
  strings a label file holds, a non-empty run of digits (with a leading minus sign for
  \<open>np_float\<close>, which reads back what \<open>str_of_int\<close> wrote); any other string is reported
  as \<open>ValueError\<close>, which is what Python does except for the further number syntax it
  accepts (spaces, \<open>+\<close>, underscores, fractions, exponents).
\<close>

definition digit_char :: "nat \<Rightarrow> char" where
  "digit_char d = ''0123456789'' ! d"

definition is_digit :: "char \<Rightarrow> bool" where
  "is_digit c = (48 \<le> (of_char c :: nat) \<and> (of_char c :: nat) \<le> 57)"

definition digit_val :: "char \<Rightarrow> nat" where
  "digit_val c = of_char c - 48"

fun str_of_nat :: "nat \<Rightarrow> string" where
  "str_of_nat n =
     (if n < 10 then [digit_char n] else str_of_nat (n div 10) @ [digit_char (n mod 10)])"

declare str_of_nat.simps [simp del]

definition str_of_int :: "int \<Rightarrow> string" where
  "str_of_int i = (if i < 0 then CHR ''-'' # str_of_nat (nat (- i)) else str_of_nat (nat i))"

definition nat_of_digits :: "string \<Rightarrow> nat option" where
  "nat_of_digits s =
     (if s = [] \<or> \<not> list_all is_digit s then None
      else Some (foldl (\<lambda>a c. 10 * a + digit_val c) 0 s))"

definition py_int :: "string \<Rightarrow> error + int" where
  "py_int s = (case nat_of_digits s of None \<Rightarrow> Inl ValueError | Some n \<Rightarrow> Inr (int n))"

definition np_float :: "string \<Rightarrow> error + real" where
  "np_float s =
     (case s of
        c # t \<Rightarrow>
          (if c = CHR ''-''
           then (case nat_of_digits t of None \<Rightarrow> Inl ValueError | Some n \<Rightarrow> Inr (- real n))
           else (case nat_of_digits s of None \<Rightarrow> Inl ValueError | Some n \<Rightarrow> Inr (real n)))
      | [] \<Rightarrow> Inl ValueError)"

text \<open>\<open>int(x)\<close> on a float truncates toward zero.\<close>

definition int_of_float :: "real \<Rightarrow> int" where
  "int_of_float x = (if 0 \<le> x then \<lfloor>x\<rfloor> else \<lceil>x\<rceil>)"

text \<open>\<open>xs.index(v)\<close>: the first position of \<open>v\<close>, \<open>ValueError\<close> when it is absent.\<close>

fun index_of :: "'a list \<Rightarrow> 'a \<Rightarrow> error + nat" where
  "index_of [] v = Inl ValueError"
| "index_of (x # xs) v =
     (if x = v then Inr 0
      else (case index_of xs v of Inl e \<Rightarrow> Inl e | Inr k \<Rightarrow> Inr (Suc k)))"

text \<open>Running a list of fallible steps in order, stopping at the first error.\<close>

fun try_map :: "('a \<Rightarrow> error + 'b) \<Rightarrow> 'a list \<Rightarrow> error + 'b list" where
  "try_map f [] = Inr []"
| "try_map f (x # xs) =
     (case f x of
        Inl e \<Rightarrow> Inl e
      | Inr y \<Rightarrow> (case try_map f xs of Inl e \<Rightarrow> Inl e | Inr ys \<Rightarrow> Inr (y # ys)))"

fun try_fold :: "('a \<Rightarrow> 's \<Rightarrow> error + 's) \<Rightarrow> 'a list \<Rightarrow> 's \<Rightarrow> error + 's" where
  "try_fold f [] s = Inr s"
| "try_fold f (x # xs) s = (case f x s of Inl e \<Rightarrow> Inl e | Inr s' \<Rightarrow> try_fold f xs s')"

section \<open>Linguistic expander: \<open>SampleRNNDataset._get_utterance_conds_linguistic\<close>\<close>

text \<open>
  The four sorted vocabularies of \<open>conds_linguistic_categories\<close>, and the speaker's
  \<open>conds_linguistic_stads\<close> (entry 0 the means, entry 1 the scales).
\<close>

record categories =
  phonemes :: "string list"
  vowels :: "string list"
  gpos :: "string list"
  tobi :: "string list"

record stads =
  means :: "real list"
  scales :: "real list"

text \<open>
  One parsed line of the label file is the tuple of the groups of the reader's regular
  expression, a list of strings. \<open>np.asarray\<close> turns it into an array of fixed-width
  strings, the width being the longest field (at least 1); a value stored into the array
  later is written as its \<open>str\<close> and cut to that width.
\<close>

definition width :: "string list \<Rightarrow> nat" where
  "width lab_line = foldr max (map length lab_line) 1"

definition store :: "nat \<Rightarrow> string list \<Rightarrow> nat \<Rightarrow> int \<Rightarrow> string list" where
  "store w lab_line i v = lab_line[i := take w (str_of_int v)]"

text \<open>\<open>lab_line[0] = int(lab_line[1]) - int(lab_line[0])\<close>\<close>

definition subst_duration :: "nat \<Rightarrow> string list \<Rightarrow> error + string list" where
  "subst_duration w lab_line =
     (if length lab_line < 2 then Inl IndexError
      else case py_int (lab_line ! 1) of
             Inl e \<Rightarrow> Inl e
           | Inr e1 \<Rightarrow>
               (case py_int (lab_line ! 0) of
                  Inl e \<Rightarrow> Inl e
                | Inr e0 \<Rightarrow> Inr (store w lab_line 0 (e1 - e0))))"

text \<open>\<open>lab_line[i] = vocabulary.index(lab_line[i])\<close>\<close>

definition subst_category :: "nat \<Rightarrow> string list \<times> nat \<Rightarrow> string list \<Rightarrow> error + string list" where
  "subst_category w vi lab_line =
     (if length lab_line \<le> snd vi then Inl IndexError
      else case index_of (fst vi) (lab_line ! snd vi) of
             Inl e \<Rightarrow> Inl e
           | Inr k \<Rightarrow> Inr (store w lab_line (snd vi) (int k)))"

text \<open>The ten categorical substitutions, in the order of the source.\<close>

definition categorical_slots :: "categories \<Rightarrow> (string list \<times> nat) list" where
  "categorical_slots cats =
     [(phonemes cats, 2), (phonemes cats, 3), (phonemes cats, 4), (phonemes cats, 5),
      (phonemes cats, 6), (vowels cats, 27), (gpos cats, 31), (gpos cats, 33),
      (gpos cats, 41), (tobi cats, 49)]"

text \<open>\<open>lab_line[lab_line == 'x'] = 0\<close>\<close>

definition subst_unknown :: "nat \<Rightarrow> string list \<Rightarrow> string list" where
  "subst_unknown w lab_line = map (\<lambda>s. if s = ''x'' then take w (str_of_int 0) else s) lab_line"

text \<open>
  Elementwise arithmetic of two one-dimensional arrays with numpy's broadcasting:
  equal lengths, or one of them of length 1; anything else raises \<open>ValueError\<close>.
\<close>

definition broadcast2 :: "(real \<Rightarrow> real \<Rightarrow> real) \<Rightarrow> real list \<Rightarrow> real list \<Rightarrow> error + real list" where
  "broadcast2 f xs ys =
     (if length xs = length ys then Inr (map (\<lambda>(x, y). f x y) (zip xs ys))
      else if length ys = 1 then Inr (map (\<lambda>x. f x (hd ys)) xs)
      else if length xs = 1 then Inr (map (\<lambda>y. f (hd xs) y) ys)
      else Inl ValueError)"

text \<open>
  \<open>(lab_line - mean) / scale\<close>. A zero scale raises nothing and leaves \<open>inf\<close> or \<open>nan\<close>,
  reported as \<open>NonFinite\<close>.
\<close>

definition normalize :: "stads \<Rightarrow> real list \<Rightarrow> error + real list" where
  "normalize st xs =
     (case broadcast2 (\<lambda>x m. x - m) xs (means st) of
        Inl e \<Rightarrow> Inl e
      | Inr centred \<Rightarrow>
          (if length centred \<noteq> length (scales st) \<and> length (scales st) \<noteq> 1
              \<and> length centred \<noteq> 1
           then Inl ValueError
           else if centred \<noteq> [] \<and> 0 \<in> set (scales st) then Inl NonFinite
           else broadcast2 (\<lambda>x s. x / s) centred (scales st)))"

text \<open>
  \<open>np.linspace(0, 1, num)\<close>: \<open>arange(num) * (1 / (num - 1))\<close> with the last entry set to
  the stop value; a single sample is the start value.
\<close>

definition linspace01 :: "nat \<Rightarrow> real list" where
  "linspace01 num =
     (if num \<le> 1 then replicate num 0
      else (map (\<lambda>i. real i * (1 / real (num - 1))) [0..<num])[num - 1 := 1])"

text \<open>
  The number of frames of a segment: \<open>steps_n = (lab_line[0] * 10E-5) / 5\<close>, a float.
  \<open>np.repeat\<close> and \<open>np.linspace\<close> convert it to an integer by truncation.
\<close>

definition steps_n :: "real \<Rightarrow> real" where
  "steps_n duration = (duration * (10 / 10 ^ 5)) / 5"

text \<open>
  The block of one line: the normalized record repeated, with column 1 overwritten by
  the linspace. A negative count makes \<open>np.repeat\<close> raise \<open>ValueError\<close>; a record with
  fewer than two columns makes the column assignment raise \<open>IndexError\<close>.
\<close>

definition repeat_block :: "real list \<Rightarrow> real \<Rightarrow> error + array2" where
  "repeat_block record steps =
     (if int_of_float steps < 0 then Inl ValueError
      else if length record < 2 then Inl IndexError
      else Inr \<lparr>ncols = length record,
                rows = map (\<lambda>t. record[1 := t]) (linspace01 (nat (int_of_float steps)))\<rparr>)"

definition expand_line :: "categories \<Rightarrow> stads \<Rightarrow> string list \<Rightarrow> error + array2" where
  "expand_line cats st lab_line =
     (let w = width lab_line in
      case subst_duration w lab_line of
        Inl e \<Rightarrow> Inl e
      | Inr l1 \<Rightarrow>
          (case try_fold (subst_category w) (categorical_slots cats) l1 of
             Inl e \<Rightarrow> Inl e
           | Inr l2 \<Rightarrow>
               (case try_map np_float (subst_unknown w l2) of
                  Inl e \<Rightarrow> Inl e
                | Inr l3 \<Rightarrow>
                    (case normalize st l3 of
                       Inl e \<Rightarrow> Inl e
                     | Inr l4 \<Rightarrow> repeat_block l4 (steps_n (l3 ! 0))))))"

text \<open>
  Appending a block to \<open>utterance_conds\<close>, which starts as \<open>None\<close>; \<open>np.concatenate\<close>
  raises \<open>ValueError\<close> when the column counts differ.
\<close>

definition append_block :: "array2 option \<Rightarrow> array2 \<Rightarrow> error + array2 option" where
  "append_block utterance_conds utterance_ling =
     (case utterance_conds of
        None \<Rightarrow> Inr (Some utterance_ling)
      | Some c \<Rightarrow>
          (if ncols c \<noteq> ncols utterance_ling then Inl ValueError
           else Inr (Some \<lparr>ncols = ncols c, rows = rows c @ rows utterance_ling\<rparr>)))"

fun expand_lines :: "categories \<Rightarrow> stads \<Rightarrow> array2 option \<Rightarrow> string list list \<Rightarrow> error + array2 option" where
  "expand_lines cats st utterance_conds [] = Inr utterance_conds"
| "expand_lines cats st utterance_conds (lab_line # rest) =
     (case expand_line cats st lab_line of
        Inl e \<Rightarrow> Inl e
      | Inr utterance_ling \<Rightarrow>
          (case append_block utterance_conds utterance_ling of
             Inl e \<Rightarrow> Inl e
           | Inr c \<Rightarrow> expand_lines cats st c rest))"

text \<open>
  The method itself, given the lines \<open>SampleRNNLabReader.read_lab\<close> parsed from the
  utterance's label file.
\<close>

definition get_utterance_conds_linguistic :: "categories \<Rightarrow> stads \<Rightarrow> string list list \<Rightarrow> error + array2 option" where
  "get_utterance_conds_linguistic cats st lab = expand_lines cats st None lab"

section \<open>Conditioning of an item: \<open>SampleRNNDataset.__getitem__\<close>\<close>

text \<open>
  The conditioning part of \<open>__getitem__\<close>. \<open>utterance_conds_len_model\<close> is the frame count
  of \<open>get_model_len\<close>, \<open>utterance_size\<close> the entry of \<open>conf.conditionants\<close>; the two streams
  are the results of the loader calls, each used only in the branch that calls it. The
  shape of \<open>None\<close> raises \<open>AttributeError\<close>; an unknown conditioning type logs an error
  and exits the process (\<open>SystemExit\<close>).
\<close>

definition conform :: "int \<Rightarrow> int \<Rightarrow> array2 \<Rightarrow> error + array2" where
  "conform utterance_conds_len_model utterance_size stream =
     (let utterance_conds_len = min utterance_conds_len_model (int (shape0 stream)) in
      case zeros utterance_conds_len_model utterance_size of
        Inl e \<Rightarrow> Inl e
      | Inr utterance_conds \<Rightarrow>
          assign_block utterance_conds
            (slice_upto (shape0 utterance_conds) utterance_conds_len)
            0 (ncols utterance_conds)
            (take_rows (slice_upto (shape0 stream) utterance_conds_len) stream))"

definition fuse_linguistic_lf0 :: "int \<Rightarrow> int \<Rightarrow> array2 option \<Rightarrow> array2 \<Rightarrow> error + array2" where
  "fuse_linguistic_lf0 utterance_conds_len_model utterance_size linguistic acoustic =
     (case linguistic of
        None \<Rightarrow> Inl AttributeError
      | Some ling \<Rightarrow>
          (let utterance_conds_len =
                 max (max utterance_conds_len_model (int (shape0 ling))) (int (shape0 acoustic))
           in case zeros utterance_conds_len utterance_size of
                Inl e \<Rightarrow> Inl e
              | Inr utterance_conds \<Rightarrow>
                  (case assign_block utterance_conds
                          (slice_upto (shape0 utterance_conds) (int (shape0 ling)))
                          0 (slice_upto (ncols utterance_conds) (utterance_size - 2)) ling of
                     Inl e \<Rightarrow> Inl e
                   | Inr filled \<Rightarrow>
                       assign_block filled
                         (slice_upto (shape0 filled) (int (shape0 acoustic)))
                         (slice_start (ncols filled) (utterance_size - 2))
                         (ncols filled - slice_start (ncols filled) (utterance_size - 2))
                         (last_two_cols acoustic))))"

definition getitem_conds ::
  "string \<Rightarrow> int \<Rightarrow> int \<Rightarrow> (error + array2 option) \<Rightarrow> (error + array2) \<Rightarrow> error + array2" where
  "getitem_conds utterance_type utterance_conds_len_model utterance_size linguistic acoustic =
     (if utterance_type = ''acoustic'' then
        (case acoustic of
           Inl e \<Rightarrow> Inl e
         | Inr a \<Rightarrow> conform utterance_conds_len_model utterance_size a)
      else if utterance_type = ''linguistic'' then
        (case linguistic of
           Inl e \<Rightarrow> Inl e
         | Inr None \<Rightarrow> Inl AttributeError
         | Inr (Some l) \<Rightarrow> conform utterance_conds_len_model utterance_size l)
      else if utterance_type = ''linguistic_lf0'' then
        (case linguistic of
           Inl e \<Rightarrow> Inl e
         | Inr l \<Rightarrow>
             (case acoustic of
                Inl e \<Rightarrow> Inl e
              | Inr a \<Rightarrow> fuse_linguistic_lf0 utterance_conds_len_model utterance_size l a))
      else Inl ProcessExit)"

section \<open>Auxiliary: evaluating the exponential series\<close>

text \<open>
  Not part of the program: \<open>exp_horner x 0 n\<close> is the \<open>n\<close>-term partial sum of the
  exponential series in nested form, used to bound \<open>exp\<close> and \<open>ln\<close> at the constants
  of the mu-law codec.
\<close>

fun exp_horner :: "real \<Rightarrow> nat \<Rightarrow> nat \<Rightarrow> real" where
  "exp_horner x k 0 = 0"
| "exp_horner x k (Suc j) = 1 + x / real (Suc k) * exp_horner x (Suc k) j"

chapter \<open>Verification\<close>

section \<open>Properties of the alignment lengths\<close>

lemma int_truediv_multiple:
  assumes "0 < b"
  shows "int_truediv (k * b) b = Inr k"
proof -
  have "\<bar>k * b\<bar> div \<bar>b\<bar> = \<bar>k\<bar>" using assms by (simp add: abs_mult)
  moreover have "sgn (k * b) * sgn b = sgn k" using assms by (simp add: sgn_mult)
  moreover have "sgn k * \<bar>k\<bar> = k" by (rule mult_sgn_abs)
  ultimately show ?thesis using assms by (simp add: int_truediv_def)
qed

lemma get_model_len_truncating:
  assumes "0 < frame_size" "0 < sequence_length"
  shows "get_model_len frame_size sequence_length False n =
           Inr ((n div (frame_size * sequence_length)) * (frame_size * sequence_length),
                (n div (frame_size * sequence_length)) * sequence_length)"
proof -
  let ?s = "frame_size * sequence_length"
  have s: "?s \<noteq> 0" using assms by simp
  have e: "(n div ?s) * ?s = ((n div ?s) * sequence_length) * frame_size"
    by (simp add: algebra_simps)
  have "int_truediv ((n div ?s) * ?s) frame_size = Inr ((n div ?s) * sequence_length)"
    unfolding e using assms(1) by (rule int_truediv_multiple)
  then show ?thesis using s
    by (simp add: get_model_len_def Let_def del: mult_eq_0_iff)
qed

lemma get_model_len_full:
  assumes "0 < frame_size" "0 < sequence_length"
  shows "get_model_len frame_size sequence_length True n =
           Inr ((n div (frame_size * sequence_length) + 1) * (frame_size * sequence_length),
                (n div (frame_size * sequence_length) + 1) * sequence_length)"
proof -
  let ?s = "frame_size * sequence_length"
  have s: "?s \<noteq> 0" using assms by simp
  have e: "(n div ?s + 1) * ?s = ((n div ?s + 1) * sequence_length) * frame_size"
    by (simp add: algebra_simps)
  have "int_truediv ((n div ?s + 1) * ?s) frame_size = Inr ((n div ?s + 1) * sequence_length)"
    unfolding e using assms(1) by (rule int_truediv_multiple)
  then show ?thesis using s
    by (simp add: get_model_len_def Let_def del: mult_eq_0_iff)
qed

lemma floor_multiple_le: "0 < (s::int) \<Longrightarrow> (n div s) * s \<le> n"
proof -
  assume s: "0 < s"
  have "n = (n div s) * s + n mod s" by simp
  moreover have "0 \<le> n mod s" using s by simp
  ultimately show ?thesis by linarith
qed

lemma next_multiple_gt: "0 < (s::int) \<Longrightarrow> n < (n div s + 1) * s"
proof -
  assume s: "0 < s"
  have "n = (n div s) * s + n mod s" by simp
  moreover have "n mod s < s" using s by simp
  moreover have "(n div s + 1) * s = (n div s) * s + s" by (simp add: algebra_simps)
  ultimately show ?thesis by linarith
qed

lemma next_multiple_least:
  assumes s: "0 < (s::int)" and m: "s dvd m" "n < m"
  shows "(n div s + 1) * s \<le> m"
proof -
  from m(1) obtain k where k: "m = s * k" by (auto simp: dvd_def)
  have "n div s < k"
  proof (rule ccontr)
    assume "\<not> n div s < k"
    then have "k \<le> n div s" by simp
    then have "k * s \<le> (n div s) * s" using s by (simp add: mult_right_mono)
    also have "\<dots> \<le> n" using s by (rule floor_multiple_le)
    finally show False using m(2) k by (simp add: mult.commute)
  qed
  then have "n div s + 1 \<le> k" by simp
  then have "(n div s + 1) * s \<le> k * s" using s by (simp add: mult_right_mono)
  then show ?thesis using k by (simp add: mult.commute)
qed

lemma next_multiple_of_multiple: "(s::int) dvd n \<Longrightarrow> (n div s + 1) * s = n + s"
  by (simp add: algebra_simps)

lemma get_model_len_general:
  assumes "0 < frame_size" "0 < sequence_length"
  shows "\<exists>ts tf fs ff.
           get_model_len frame_size sequence_length False n = Inr (ts, tf)
         \<and> get_model_len frame_size sequence_length True n = Inr (fs, ff)
         \<and> (frame_size * sequence_length) dvd ts \<and> ts \<le> n
         \<and> tf * frame_size = ts
         \<and> (frame_size * sequence_length) dvd fs \<and> n \<le> fs \<and> n < fs
         \<and> (\<forall>m. (frame_size * sequence_length) dvd m \<and> n < m \<longrightarrow> fs \<le> m)
         \<and> ((frame_size * sequence_length) dvd n \<longrightarrow> fs = n + frame_size * sequence_length)
         \<and> ff * frame_size = fs"
proof -
  let ?s = "frame_size * sequence_length"
  let ?q = "n div ?s"
  have s: "0 < ?s" using assms by simp
  have t: "get_model_len frame_size sequence_length False n = Inr (?q * ?s, ?q * sequence_length)"
    using assms by (rule get_model_len_truncating)
  have f: "get_model_len frame_size sequence_length True n
             = Inr ((?q + 1) * ?s, (?q + 1) * sequence_length)"
    using assms by (rule get_model_len_full)
  have le: "?q * ?s \<le> n" using s by (rule floor_multiple_le)
  have gt: "n < (?q + 1) * ?s" using s by (rule next_multiple_gt)
  have ge: "n \<le> (?q + 1) * ?s" using gt by simp
  have least: "\<forall>m. ?s dvd m \<and> n < m \<longrightarrow> (?q + 1) * ?s \<le> m"
    using next_multiple_least[OF s] by blast
  have mult: "?s dvd n \<longrightarrow> (?q + 1) * ?s = n + ?s"
    using next_multiple_of_multiple by blast
  have f1: "?q * sequence_length * frame_size = ?q * ?s" by (simp add: algebra_simps)
  have f2: "(?q + 1) * sequence_length * frame_size = (?q + 1) * ?s" by (simp add: algebra_simps)
  have d1: "?s dvd ?q * ?s" by (rule dvd_triv_right)
  have d2: "?s dvd (?q + 1) * ?s" by (rule dvd_triv_right)
  show ?thesis
    apply (rule exI[of _ "?q * ?s"])
    apply (rule exI[of _ "?q * sequence_length"])
    apply (rule exI[of _ "(?q + 1) * ?s"])
    apply (rule exI[of _ "(?q + 1) * sequence_length"])
    apply (intro conjI)
    apply (rule t f d1 le f1 d2 ge gt least mult f2)+
    done
qed

lemma get_model_len_example:
  "get_model_len 8 4 False 50 = Inr (32, 4) \<and> get_model_len 8 4 True 50 = Inr (64, 8)"
  by (simp add: get_model_len_def int_truediv_def)

text \<open>
  Claim C3. For positive \<open>frame_size\<close> and \<open>sequence_length\<close> and every raw sample count
  \<open>n\<close>, with \<open>samples_per_forward = frame_size * sequence_length\<close>: in truncating mode the
  method returns a sample count that is a multiple of \<open>samples_per_forward\<close> and at most
  \<open>n\<close>; in full-coverage mode it returns a multiple that is at least \<open>n\<close>, strictly greater
  than \<open>n\<close>, the smallest such multiple, and equal to \<open>n + samples_per_forward\<close> when \<open>n\<close> is
  itself a multiple. In both modes the frame count times \<open>frame_size\<close> is the sample count.
  For \<open>frame_size = 8\<close>, \<open>sequence_length = 4\<close>, \<open>n = 50\<close> the results are \<open>(32, 4)\<close>
  and \<open>(64, 8)\<close>.
\<close>

theorem get_model_len_alignment:
  assumes "0 < frame_size" "0 < sequence_length"
  shows "(\<exists>ts tf fs ff.
           get_model_len frame_size sequence_length False n = Inr (ts, tf)
         \<and> get_model_len frame_size sequence_length True n = Inr (fs, ff)
         \<and> (frame_size * sequence_length) dvd ts \<and> ts \<le> n
         \<and> tf * frame_size = ts
         \<and> (frame_size * sequence_length) dvd fs \<and> n \<le> fs \<and> n < fs
         \<and> (\<forall>m. (frame_size * sequence_length) dvd m \<and> n < m \<longrightarrow> fs \<le> m)
         \<and> ((frame_size * sequence_length) dvd n \<longrightarrow> fs = n + frame_size * sequence_length)
         \<and> ff * frame_size = fs)
       \<and> get_model_len 8 4 False 50 = Inr (32, 4)
       \<and> get_model_len 8 4 True 50 = Inr (64, 8)"
  using get_model_len_general[OF assms, of n] get_model_len_example by blast

theorem get_model_len_alignment_witness:
  "(0::int) < 8 \<and> (0::int) < 4 \<and> (\<exists>ts tf fs ff.
           get_model_len 8 4 False 64 = Inr (ts, tf)
         \<and> get_model_len 8 4 True 64 = Inr (fs, ff)
         \<and> (8 * 4) dvd ts \<and> ts \<le> 64
         \<and> tf * 8 = ts
         \<and> (8 * 4) dvd fs \<and> 64 \<le> fs \<and> 64 < fs
         \<and> (\<forall>m. (8 * 4) dvd m \<and> 64 < m \<longrightarrow> fs \<le> m)
         \<and> ((8 * 4) dvd (64::int) \<longrightarrow> fs = 64 + 8 * 4)
         \<and> ff * 8 = fs)"
proof -
  have a: "(0::int) < 8" and b: "(0::int) < 4" by simp_all
  show ?thesis using a b get_model_len_alignment[OF a b, of 64] by blast
qed

section \<open>Strategy selection of the codec\<close>

lemma linear_quantize_no_strategy_error: "linear_quantize q xs \<noteq> Inl UnrecognizedQType"
  by (auto simp: linear_quantize_def levels_of_def tensor_div_def Let_def
           split: pyval.splits sum.splits if_splits)

lemma ulaw_quantize_no_strategy_error: "ulaw_quantize dt q xs \<noteq> Inl UnrecognizedQType"
  by (auto simp: ulaw_quantize_def midrise_def levels_of_def split: pyval.splits sum.splits)

lemma linear_dequantize_no_strategy_error: "linear_dequantize q ss \<noteq> Inl UnrecognizedQType"
  by (auto simp: linear_dequantize_def levels_of_def tensor_div_def
           split: pyval.splits sum.splits if_splits)

lemma ulaw_dequantize_no_strategy_error: "ulaw_dequantize q ss \<noteq> Inl UnrecognizedQType"
  by (auto simp: ulaw_dequantize_def imidrise_def levels_of_def tensor_div_def
           split: pyval.splits sum.splits if_splits)

lemma quantizer_init_q_type:
  "quantizer_init conf = Inr q \<Longrightarrow> q_type q = LINEAR_QUANT \<or> q_type q = ULAW_QUANT"
  by (auto simp: quantizer_init_def split: option.splits)

text \<open>
  Claim C7, as amended. The constructor validates no strategy: given both configuration
  keys it always returns a codec, mu-law when \<open>q_type_ulaw\<close> is truthy and linear
  otherwise; its only failure is the \<open>KeyError\<close> of a missing key. On a constructed codec
  neither \<open>quantize\<close> nor \<open>dequantize\<close> reaches the unrecognized-strategy branch.
\<close>

theorem quantizer_init_accepts_any_strategy:
  "(conf ''q_type_ulaw'' = Some flag \<and> conf ''q_levels'' = Some lv \<longrightarrow>
      quantizer_init conf =
        Inr \<lparr>q_type = (if truthy flag then ULAW_QUANT else LINEAR_QUANT), q_levels = lv\<rparr>)
   \<and> (quantizer_init conf = Inl e \<longrightarrow> e = KeyError)
   \<and> (quantizer_init conf = Inr q \<longrightarrow>
        quantize dt q xs \<noteq> Inl UnrecognizedQType \<and> dequantize q ss \<noteq> Inl UnrecognizedQType)"
proof (intro conjI impI)
  assume "conf ''q_type_ulaw'' = Some flag \<and> conf ''q_levels'' = Some lv"
  then show "quantizer_init conf =
        Inr \<lparr>q_type = (if truthy flag then ULAW_QUANT else LINEAR_QUANT), q_levels = lv\<rparr>"
    by (simp add: quantizer_init_def)
next
  assume "quantizer_init conf = Inl e"
  then show "e = KeyError"
    by (auto simp: quantizer_init_def split: option.splits)
next
  assume "quantizer_init conf = Inr q"
  then have t: "q_type q = LINEAR_QUANT \<or> q_type q = ULAW_QUANT"
    by (rule quantizer_init_q_type)
  then show "quantize dt q xs \<noteq> Inl UnrecognizedQType"
    using linear_quantize_no_strategy_error ulaw_quantize_no_strategy_error
    by (auto simp: quantize_def)
  from t show "dequantize q ss \<noteq> Inl UnrecognizedQType"
    using linear_dequantize_no_strategy_error ulaw_dequantize_no_strategy_error
    by (auto simp: dequantize_def)
qed

theorem quantizer_init_accepts_any_strategy_witness:
  "quantizer_init [''q_type_ulaw'' \<mapsto> PyInt 1, ''q_levels'' \<mapsto> PyInt 256]
     = Inr \<lparr>q_type = ULAW_QUANT, q_levels = PyInt 256\<rparr>
   \<and> quantizer_init [''q_levels'' \<mapsto> PyInt 256] = Inl KeyError
   \<and> quantize Float32 \<lparr>q_type = ULAW_QUANT, q_levels = PyInt 256\<rparr> [0] \<noteq> Inl UnrecognizedQType
   \<and> dequantize \<lparr>q_type = ULAW_QUANT, q_levels = PyInt 256\<rparr> [128] \<noteq> Inl UnrecognizedQType"
proof -
  let ?conf = "[''q_type_ulaw'' \<mapsto> PyInt 1, ''q_levels'' \<mapsto> PyInt 256]"
  let ?q = "\<lparr>q_type = ULAW_QUANT, q_levels = PyInt 256\<rparr>"
  have a: "?conf ''q_type_ulaw'' = Some (PyInt 1) \<and> ?conf ''q_levels'' = Some (PyInt 256)"
    by simp
  have i: "quantizer_init ?conf = Inr ?q"
    using quantizer_init_accepts_any_strategy[of ?conf "PyInt 1" "PyInt 256"] a by simp
  have k: "quantizer_init [''q_levels'' \<mapsto> PyInt 256] = Inl KeyError"
    by (simp add: quantizer_init_def)
  show ?thesis
    using i k quantizer_init_accepts_any_strategy[of ?conf _ _ _ ?q Float32 "[0]" "[128]"]
    by simp
qed

text \<open>
  Claim C7, as stated, fails: a configuration naming a strategy the codec does not know
  is accepted at construction and silently selects mu-law.
\<close>

theorem quantizer_init_unrecognized_strategy:
  "quantizer_init [''q_type_ulaw'' \<mapsto> PyStr ''adpcm'', ''q_levels'' \<mapsto> PyInt 256]
     = Inr \<lparr>q_type = ULAW_QUANT, q_levels = PyInt 256\<rparr>"
  by (simp add: quantizer_init_def)


section \<open>Linear quantization\<close>

lemma long_floor: "0 \<le> x \<Longrightarrow> long x = \<lfloor>x\<rfloor>"
  by (simp add: long_def)

lemma Max_shifted:
  assumes "xs \<noteq> []"
  shows "Max ((\<lambda>x. x - c) ` set xs) = Max (set xs) - (c::real)"
  using assms by (intro mono_Max_commute[symmetric] monoI) auto

lemma linear_quantize_two_values:
  assumes lv: "q_levels q = PyInt n" and n: "1 \<le> n"
    and ab: "a \<in> set xs" "b \<in> set xs" "a \<noteq> b"
  shows "\<exists>qs. linear_quantize q xs = Inr qs \<and> length qs = length xs
             \<and> (\<forall>s \<in> set qs. 0 \<le> s \<and> s < n)"
proof -
  let ?lo = "Min (set xs)" and ?hi = "Max (set xs)"
  let ?sh = "map (\<lambda>x. x - ?lo) xs"
  let ?f = "\<lambda>x. long ((x - ?lo) / (?hi - ?lo) * (of_int n - EPSILON) + EPSILON / 2)"
  have ne: "xs \<noteq> []" using ab by auto
  have "?lo \<le> min a b" using ab by (simp add: min_def)
  moreover have "max a b \<le> ?hi" using ab by (simp add: max_def)
  ultimately have lt: "?lo < ?hi" using ab(3) by (simp add: min_def max_def split: if_splits)
  have mx: "Max ((\<lambda>x. x - ?lo) ` set xs) = ?hi - ?lo" using ne by (rule Max_shifted)
  have r: "linear_quantize q xs = Inr (map ?f xs)"
    using ne lt lv by (simp add: linear_quantize_def Let_def mx tensor_div_def levels_of_def o_def)
  have rng: "0 \<le> ?f x \<and> ?f x < n" if x: "x \<in> set xs" for x
  proof -
    let ?y = "(x - ?lo) / (?hi - ?lo)"
    have "?lo \<le> x" "x \<le> ?hi" using x by simp_all
    then have y: "0 \<le> ?y" "?y \<le> 1" using lt by (simp_all add: divide_le_eq)
    have n1: "(1::real) \<le> of_int n" using n by simp
    then have c: "0 \<le> of_int n - EPSILON" by (simp add: EPSILON_def)
    let ?v = "?y * (of_int n - EPSILON) + EPSILON / 2"
    have "?y * (of_int n - EPSILON) \<le> 1 * (of_int n - EPSILON)"
      using y(2) c by (rule mult_right_mono)
    then have up: "?v < of_int n" by (simp add: EPSILON_def)
    have "0 \<le> ?y * (of_int n - EPSILON)" using y(1) c by (rule mult_nonneg_nonneg)
    then have lo: "0 \<le> ?v" by (simp add: EPSILON_def)
    have "?f x = \<lfloor>?v\<rfloor>" using lo by (rule long_floor)
    moreover have "0 \<le> \<lfloor>?v\<rfloor>" using lo by simp
    moreover have "\<lfloor>?v\<rfloor> < n" using up by (simp add: floor_less_iff)
    ultimately show ?thesis by simp
  qed
  show ?thesis unfolding r using rng by auto
qed

lemma linear_quantize_constant:
  assumes lv: "q_levels q = PyInt n" and ne: "xs \<noteq> []"
    and c: "\<forall>a \<in> set xs. \<forall>b \<in> set xs. a = b"
  shows "linear_quantize q xs = Inl NonFinite"
proof -
  let ?lo = "Min (set xs)" and ?hi = "Max (set xs)"
  have "?lo \<in> set xs" "?hi \<in> set xs" using ne by (simp_all add: Min_in Max_in)
  then have eq: "?hi = ?lo" using c by blast
  have mx: "Max ((\<lambda>x. x - ?lo) ` set xs) = ?hi - ?lo" using ne by (rule Max_shifted)
  show ?thesis
    using ne lv eq by (simp add: linear_quantize_def Let_def mx tensor_div_def levels_of_def)
qed

text \<open>
  Claim C9. \<open>linear_quantize\<close> divides by the maximum of the min-shifted sequence without
  a guard. With an integer \<open>q_levels\<close> of at least 1: when the sequence holds two distinct
  values the result is a sequence of integers in \<open>[0, q_levels)\<close>, one per sample; when the
  sequence is constant the division is by zero and the result is not a number
  (\<open>NonFinite\<close>).
\<close>

theorem linear_quantize_range_iff_two_values:
  assumes "q_levels q = PyInt n" "1 \<le> n"
  shows "((\<exists>a \<in> set xs. \<exists>b \<in> set xs. a \<noteq> b) \<longrightarrow>
            (\<exists>qs. linear_quantize q xs = Inr qs \<and> length qs = length xs
                  \<and> (\<forall>s \<in> set qs. 0 \<le> s \<and> s < n)))
       \<and> (xs \<noteq> [] \<and> (\<forall>a \<in> set xs. \<forall>b \<in> set xs. a = b) \<longrightarrow>
            linear_quantize q xs = Inl NonFinite)"
  using linear_quantize_two_values[OF assms] linear_quantize_constant[OF assms(1)]
  by blast

theorem linear_quantize_range_iff_two_values_witness:
  "q_levels \<lparr>q_type = LINEAR_QUANT, q_levels = PyInt 256\<rparr> = PyInt 256 \<and> (1::int) \<le> 256
   \<and> (\<exists>a \<in> set [1/2, -1/4, 1::real]. \<exists>b \<in> set [1/2, -1/4, 1]. a \<noteq> b)
   \<and> linear_quantize \<lparr>q_type = LINEAR_QUANT, q_levels = PyInt 256\<rparr> [1/2, -1/4, 1]
        = Inr [153, 0, 255]
   \<and> [1/2, 1/2::real] \<noteq> [] \<and> set [1/2, 1/2::real] = {1/2}
   \<and> linear_quantize \<lparr>q_type = LINEAR_QUANT, q_levels = PyInt 256\<rparr> [1/2, 1/2]
        = Inl NonFinite"
proof -
  let ?q = "\<lparr>q_type = LINEAR_QUANT, q_levels = PyInt 256\<rparr>"
  have l: "q_levels ?q = PyInt 256" by simp
  have n: "(1::int) \<le> 256" by simp
  have d: "\<exists>a \<in> set [1/2, -1/4, 1::real]. \<exists>b \<in> set [1/2, -1/4, 1]. a \<noteq> b"
    by (rule bexI[of _ "1/2"], rule bexI[of _ 1]) simp_all
  have c: "[1/2, 1/2::real] \<noteq> [] \<and> (\<forall>a \<in> set [1/2, 1/2::real]. \<forall>b \<in> set [1/2, 1/2]. a = b)"
    by simp
  have v: "linear_quantize ?q [1/2, -1/4, 1] = Inr [153, 0, 255]"
    by (simp add: linear_quantize_def Let_def tensor_div_def levels_of_def long_def EPSILON_def)
  have "linear_quantize ?q [1/2, 1/2] = Inl NonFinite"
    using linear_quantize_range_iff_two_values[OF l n, of "[1/2, 1/2]"] c by blast
  moreover have "set [1/2, 1/2::real] = {1/2}" by simp
  ultimately show ?thesis using l n d v by simp
qed


section \<open>Bounds on the exponential\<close>

text \<open>Partial sums of the exponential series bound \<open>exp\<close> from both sides on \<open>[0, 1]\<close>.\<close>

lemma exp_lower_sum:
  fixes x :: real
  assumes "0 \<le> x"
  shows "(\<Sum>m<n. x ^ m / fact m) \<le> exp x"
proof -
  obtain t where t: "exp x = (\<Sum>m<n. x ^ m / fact m) + (exp t / fact n) * x ^ n"
    using Maclaurin_exp_le[of x n] by blast
  have "0 \<le> (exp t / fact n) * x ^ n" using assms by simp
  then show ?thesis using t by linarith
qed

lemma exp_upper_sum:
  fixes x :: real
  assumes "0 \<le> x" "x \<le> 1"
  shows "exp x \<le> (\<Sum>m<n. x ^ m / fact m) + 3 * x ^ n / fact n"
proof -
  obtain t where t: "\<bar>t\<bar> \<le> \<bar>x\<bar>"
      "exp x = (\<Sum>m<n. x ^ m / fact m) + (exp t / fact n) * x ^ n"
    using Maclaurin_exp_le[of x n] by blast
  have "t \<le> 1" using t(1) assms by linarith
  then have "exp t \<le> exp 1" by simp
  then have e3: "exp t \<le> 3" using exp_le by linarith
  have "0 \<le> x ^ n / fact n" using assms by simp
  then have "exp t * (x ^ n / fact n) \<le> 3 * (x ^ n / fact n)"
    using e3 by (rule mult_right_mono[rotated])
  then show ?thesis using t(2) by (simp add: field_simps)
qed

lemma exp_1_le: "exp (1::real) \<le> 28 / 10"
  using exp_upper_sum[of 1 4] by (simp add: lessThan_Suc eval_nat_numeral)

lemma exp_horner_sum: "exp_horner x k j = (\<Sum>i<j. x ^ i * fact k / fact (k + i))"
proof (induction j arbitrary: k)
  case 0
  show ?case by simp
next
  case (Suc j)
  have "(\<Sum>i<Suc j. x ^ i * fact k / fact (k + i))
          = 1 + (\<Sum>i<j. x ^ Suc i * fact k / fact (k + Suc i))"
    by (subst sum.lessThan_Suc_shift) simp
  also have "(\<Sum>i<j. x ^ Suc i * fact k / fact (k + Suc i))
          = (\<Sum>i<j. x / real (Suc k) * (x ^ i * fact (Suc k) / fact (Suc k + i)))"
  proof (rule sum.cong[OF refl])
    fix i
    have e: "k + Suc i = Suc k + i" by simp
    have g: "a \<noteq> 0 \<Longrightarrow> x * y * K / F = x / a * (y * (a * K) / F)" for a y K F :: real
      by simp
    have "x ^ Suc i * fact k / fact (Suc k + i)
            = x / real (Suc k) * (x ^ i * (real (Suc k) * fact k) / fact (Suc k + i))"
      unfolding power_Suc by (rule g) simp
    then show "x ^ Suc i * fact k / fact (k + Suc i)
            = x / real (Suc k) * (x ^ i * fact (Suc k) / fact (Suc k + i))"
      unfolding e by (simp only: fact_Suc)
  qed
  also have "\<dots> = x / real (Suc k) * (\<Sum>i<j. x ^ i * fact (Suc k) / fact (Suc k + i))"
    by (rule sum_distrib_left[symmetric])
  finally show ?case using Suc.IH[of "Suc k"] by simp
qed

lemma exp_horner_series: "exp_horner x 0 n = (\<Sum>m<n. x ^ m / fact m)"
  by (simp add: exp_horner_sum)

lemma exp_lower_horner:
  assumes "0 \<le> x"
  shows "exp_horner x 0 n \<le> exp x"
  unfolding exp_horner_series using assms by (rule exp_lower_sum)

lemma exp_upper_horner:
  assumes "0 \<le> x" "x \<le> 1"
  shows "exp x \<le> exp_horner x 0 n + 3 * x ^ n / fact n"
  unfolding exp_horner_series using assms by (rule exp_upper_sum)

lemma exp_8_mult: "exp (8 * x) = exp (x::real) ^ 8"
  using exp_of_nat_mult[of 8 x] by simp

lemma exp_8_le:
  assumes "exp (x::real) \<le> b" "y \<le> 8 * x" "b ^ 8 \<le> c"
  shows "exp y \<le> c"
proof -
  have "exp y \<le> exp (8 * x)" using assms(2) by simp
  also have "\<dots> = exp x ^ 8" by (rule exp_8_mult)
  also have "\<dots> \<le> b ^ 8" using assms(1) by (intro power_mono) simp_all
  finally show ?thesis using assms(3) by linarith
qed

section \<open>The zero symbol\<close>

lemma exp_LOG_MU1_le: "exp LOG_MU1 \<le> 511"
proof -
  have "LOG_MU1 \<le> 6" by (simp add: LOG_MU1_def)
  then have "exp LOG_MU1 \<le> exp (of_nat 6 * 1)" by simp
  also have "\<dots> = exp 1 ^ 6" by (rule exp_of_nat_mult)
  also have "\<dots> \<le> (28 / 10) ^ 6" using exp_1_le by (intro power_mono) simp_all
  also have "\<dots> \<le> 511" by (simp add: power_divide)
  finally show ?thesis .
qed

lemma exp_LOG_MU1_over_n:
  assumes "0 < (k::nat)"
  shows "exp (LOG_MU1 / real k) \<le> 1 + 510 / real k"
proof -
  have kpos: "0 < real k" using assms by simp
  have "exp (LOG_MU1 / real k) ^ k = exp (of_nat k * (LOG_MU1 / real k))"
    by (rule exp_of_nat_mult[symmetric])
  also have "\<dots> = exp LOG_MU1" using kpos by simp
  also have "\<dots> \<le> 511" by (rule exp_LOG_MU1_le)
  also have "\<dots> = 1 + of_nat k * (510 / real k)" using kpos by simp
  also have "\<dots> \<le> (1 + 510 / real k) ^ k"
    using kpos by (intro Bernoulli_inequality) (simp add: order_trans[of "-1" 0])
  finally have p: "exp (LOG_MU1 / real k) ^ k \<le> (1 + 510 / real k) ^ k" .
  show ?thesis
  proof (rule power_le_imp_le_base[of _ "k - 1"])
    show "exp (LOG_MU1 / real k) ^ Suc (k - 1) \<le> (1 + 510 / real k) ^ Suc (k - 1)"
      using p assms by simp
    show "0 \<le> 1 + 510 / real k" using kpos by (simp add: add_nonneg_nonneg)
  qed
qed

lemma ulaw_dequantize_single:
  assumes "q_levels q = PyInt n" "n \<noteq> 0"
  shows "ulaw_dequantize q [s] =
           Inr [sgn (of_int s * 2 / of_int n - 1)
                  * (exp (\<bar>of_int s * 2 / of_int n - 1\<bar> * LOG_MU1) - 1) / MU]"
  using assms
  by (simp add: ulaw_dequantize_def imidrise_def levels_of_def tensor_div_def iulaw_def)

lemma zero_symbol_dequantized:
  assumes n: "0 < (n::int)"
  shows "\<bar>sgn (of_int (n div 2) * 2 / of_int n - 1)
            * (exp (\<bar>of_int (n div 2) * 2 / of_int n - 1\<bar> * LOG_MU1) - 1) / MU\<bar>
          \<le> 2 / real_of_int n"
proof (cases "even n")
  case True
  then have "(n div 2) * 2 = n" by simp
  then have "real_of_int (n div 2) * 2 = real_of_int n"
    by (metis of_int_mult of_int_numeral)
  then have "real_of_int (n div 2) * 2 / real_of_int n - 1 = 0" using n by simp
  then show ?thesis using n by simp
next
  case False
  then have "(n div 2) * 2 = n - 1" by presburger
  then have h: "real_of_int (n div 2) * 2 = real_of_int n - 1"
    by (metis of_int_mult of_int_numeral of_int_diff of_int_1)
  have "real_of_int (n div 2) * 2 / real_of_int n - 1 = (real_of_int n - 1) / real_of_int n - 1"
    by (simp only: h)
  also have "\<dots> = - (1 / real_of_int n)" using n by (simp add: field_simps)
  finally have c: "real_of_int (n div 2) * 2 / real_of_int n - 1 = - (1 / real_of_int n)" .
  define k where "k = nat n"
  have k: "0 < k" "real_of_int n = real k" using n by (simp_all add: k_def)
  have e: "exp (LOG_MU1 / real k) \<le> 1 + 510 / real k" using k(1) by (rule exp_LOG_MU1_over_n)
  have ge: "1 \<le> exp (LOG_MU1 / real k)" using k(1) by (simp add: LOG_MU1_def)
  have "\<bar>sgn (- (1 / real k)) * (exp (\<bar>- (1 / real k)\<bar> * LOG_MU1) - 1) / MU\<bar>
          = (exp (LOG_MU1 / real k) - 1) / 255"
    using k(1) ge by (simp add: MU_def abs_mult sgn_if)
  also have "\<dots> \<le> (510 / real k) / 255" using e by simp
  also have "\<dots> = 2 / real k" by simp
  finally have r: "\<bar>sgn (- (1 / real k)) * (exp (\<bar>- (1 / real k)\<bar> * LOG_MU1) - 1) / MU\<bar>
          \<le> 2 / real k" .
  show ?thesis unfolding c unfolding k(2) by (rule r)
qed

text \<open>
  Claim C5. For a mu-law codec with a positive integer \<open>q_levels = n\<close>, \<open>quantize_zero\<close>
  returns \<open>n div 2\<close>, and dequantizing that symbol gives a value within \<open>2 / n\<close> of 0.
\<close>

theorem zero_symbol_is_silence:
  assumes "q_type q = ULAW_QUANT" "q_levels q = PyInt n" "0 < n"
  shows "quantize_zero q = Inr (n div 2)
       \<and> (\<exists>v. dequantize q [n div 2] = Inr [v] \<and> \<bar>v - 0\<bar> \<le> 2 / real_of_int n)"
proof -
  have z: "quantize_zero q = Inr (n div 2)"
    using assms(2) by (simp add: quantize_zero_def levels_of_def)
  have d: "dequantize q [n div 2] = ulaw_dequantize q [n div 2]"
    using assms(1) by (simp add: dequantize_def ULAW_QUANT_def LINEAR_QUANT_def)
  have "n \<noteq> 0" using assms(3) by simp
  note u = ulaw_dequantize_single[OF assms(2) this, of "n div 2"]
  show ?thesis
    unfolding d u using z zero_symbol_dequantized[OF assms(3)] by simp
qed

theorem zero_symbol_is_silence_witness:
  "q_type \<lparr>q_type = ULAW_QUANT, q_levels = PyInt 255\<rparr> = ULAW_QUANT
   \<and> q_levels \<lparr>q_type = ULAW_QUANT, q_levels = PyInt 255\<rparr> = PyInt 255
   \<and> (0::int) < 255
   \<and> quantize_zero \<lparr>q_type = ULAW_QUANT, q_levels = PyInt 255\<rparr> = Inr 127
   \<and> (\<exists>v. dequantize \<lparr>q_type = ULAW_QUANT, q_levels = PyInt 255\<rparr> [127] = Inr [v]
          \<and> \<bar>v - 0\<bar> \<le> 2 / 255)"
proof -
  let ?q = "\<lparr>q_type = ULAW_QUANT, q_levels = PyInt 255\<rparr>"
  have a: "q_type ?q = ULAW_QUANT" and b: "q_levels ?q = PyInt 255" and c: "(0::int) < 255"
    by simp_all
  show ?thesis using a b c zero_symbol_is_silence[OF a b c] by simp
qed


section \<open>Numeric facts about the mu-law constants\<close>

lemma exp_above_ln2: "2 < exp (69314718055994535 / 100000000000000000 :: real)"
proof -
  have "2 < exp_horner (69314718055994535 / 100000000000000000) 0 19"
    by (simp add: eval_nat_numeral)
  also have "\<dots> \<le> exp (69314718055994535 / 100000000000000000)"
    by (rule exp_lower_horner) simp
  finally show ?thesis .
qed

lemma ln_256_upper: "ln (256::real) < 8 * (69314718055994535 / 100000000000000000)"
proof -
  have "(256::real) = 2 ^ 8" by simp
  also have "\<dots> < exp (69314718055994535 / 100000000000000000 :: real) ^ 8"
    using exp_above_ln2 by (intro power_strict_mono) simp_all
  also have "\<dots> = exp (8 * (69314718055994535 / 100000000000000000))"
    by (rule exp_8_mult[symmetric])
  finally have "exp (ln 256) < exp (8 * (69314718055994535 / 100000000000000000 :: real))"
    by simp
  then show ?thesis by (simp only: exp_less_cancel_iff)
qed

lemma exp_below_ln2: "exp (69 / 100 :: real) \<le> 2"
proof -
  have "exp (69 / 100 :: real) \<le> exp_horner (69 / 100) 0 6 + 3 * (69 / 100) ^ 6 / fact 6"
    by (rule exp_upper_horner) simp_all
  also have "\<dots> \<le> 2" by (simp add: eval_nat_numeral)
  finally show ?thesis .
qed

lemma ln_256_lower: "552 / 100 \<le> ln (256::real)"
proof -
  have "exp (552 / 100 :: real) \<le> 256"
    by (rule exp_8_le[OF exp_below_ln2]) simp_all
  moreover have "(552 / 100 \<le> ln (256::real)) = (exp (552 / 100) \<le> (256::real))"
    by (rule ln_ge_iff) simp
  ultimately show ?thesis by blast
qed

lemma exp_near_ln2: "exp (69315 / 100000 :: real) \<le> 20001 / 10000"
proof -
  have "exp (69315 / 100000 :: real)
          \<le> exp_horner (69315 / 100000) 0 9 + 3 * (69315 / 100000) ^ 9 / fact 9"
    by (rule exp_upper_horner) simp_all
  also have "\<dots> \<le> 20001 / 10000" by (simp add: eval_nat_numeral)
  finally show ?thesis .
qed

lemma exp_LOG_MU1_scaled:
  assumes "r \<le> 10000001 / 10000000"
  shows "exp (r * LOG_MU1) \<le> 257"
proof (rule exp_8_le[OF exp_near_ln2])
  have "r * LOG_MU1 \<le> 10000001 / 10000000 * LOG_MU1"
    using assms by (intro mult_right_mono) (simp_all add: LOG_MU1_def)
  also have "\<dots> \<le> 8 * (69315 / 100000)" by (simp add: LOG_MU1_def)
  finally show "r * LOG_MU1 \<le> 8 * (69315 / 100000)" .
  show "(20001 / 10000 :: real) ^ 8 \<le> 257" by (simp add: power_divide)
qed

lemma exp_below_top_cell: "exp (68774 / 100000 :: real) \<le> 19893 / 10000"
proof -
  have "exp (68774 / 100000 :: real)
          \<le> exp_horner (68774 / 100000) 0 7 + 3 * (68774 / 100000) ^ 7 / fact 7"
    by (rule exp_upper_horner) simp_all
  also have "\<dots> \<le> 19893 / 10000" by (simp add: eval_nat_numeral)
  finally show ?thesis .
qed

lemma exp_top_cell: "exp (127 / 128 * LOG_MU1) \<le> 246"
  by (rule exp_8_le[OF exp_below_top_cell]) (simp_all add: LOG_MU1_def power_divide)

lemma LOG_MU1_pos: "0 < LOG_MU1"
  by (simp add: LOG_MU1_def)

lemma exp_8_ge:
  assumes "b \<le> exp (x::real)" "0 \<le> b" "8 * x \<le> y" "c \<le> b ^ 8"
  shows "c \<le> exp y"
proof -
  have "c \<le> b ^ 8" by (rule assms(4))
  also have "\<dots> \<le> exp x ^ 8" using assms(1,2) by (intro power_mono) simp_all
  also have "\<dots> = exp (8 * x)" by (rule exp_8_mult[symmetric])
  also have "\<dots> \<le> exp y" using assms(3) by simp
  finally show ?thesis .
qed

lemma exp_eighth_LOG_MU1: "exp (55451774444795623 / 80000000000000000 :: real) \<le> 2"
proof -
  have "exp (55451774444795623 / 80000000000000000 :: real)
          \<le> exp_horner (55451774444795623 / 80000000000000000) 0 19
              + 3 * (55451774444795623 / 80000000000000000) ^ 19 / fact 19"
    by (rule exp_upper_horner) simp_all
  also have "\<dots> \<le> 2" by (simp add: eval_nat_numeral)
  finally show ?thesis .
qed

lemma LOG_MU1_le_ln_256: "LOG_MU1 \<le> ln 256"
proof -
  have "exp LOG_MU1 \<le> 256"
    by (rule exp_8_le[OF exp_eighth_LOG_MU1]) (simp_all add: LOG_MU1_def)
  moreover have "(LOG_MU1 \<le> ln (256::real)) = (exp LOG_MU1 \<le> (256::real))"
    by (rule ln_ge_iff) simp
  ultimately show ?thesis by blast
qed

lemma exp_above_cell_255: "19985 / 10000 \<le> exp (6925 / 10000 :: real)"
proof -
  have "19985 / 10000 \<le> exp_horner (6925 / 10000) 0 8"
    by (simp add: eval_nat_numeral)
  also have "\<dots> \<le> exp (6925 / 10000)"
    by (rule exp_lower_horner) simp
  finally show ?thesis .
qed

lemma ln_near_top_lower: "550192 / 100000 \<le> ln (16129 / 64 :: real)"
proof -
  have "exp (550192 / 100000 :: real) \<le> 16129 / 64"
    by (rule exp_8_le[OF exp_below_top_cell]) (simp_all add: power_divide)
  moreover have "(550192 / 100000 \<le> ln (16129 / 64 :: real))
                   = (exp (550192 / 100000) \<le> (16129 / 64 :: real))"
    by (rule ln_ge_iff) simp
  ultimately show ?thesis by blast
qed

lemma ln_near_top_upper: "ln (16129 / 64 :: real) \<le> 554 / 100"
proof -
  have "16129 / 64 \<le> exp (554 / 100 :: real)"
    by (rule exp_8_ge[OF exp_above_cell_255]) (simp_all add: power_divide)
  then have "exp (ln (16129 / 64)) \<le> exp (554 / 100 :: real)" by simp
  then show ?thesis by (simp only: exp_le_cancel_iff)
qed

section \<open>The multiplier of the mid-rise quantizer in float32\<close>

lemma float32_exponent_range:
  fixes v :: real
  assumes "1 / 2 \<le> v" "v < 65536"
  shows "- 1 \<le> \<lfloor>log 2 \<bar>v\<bar>\<rfloor> \<and> \<lfloor>log 2 \<bar>v\<bar>\<rfloor> \<le> 15"
proof -
  have p: "0 < v" using assms(1) by linarith
  have "2 powr (- 1) \<le> v" using assms(1) by (simp add: powr_minus)
  then have "- 1 \<le> log 2 v" using p by (simp add: le_log_iff)
  then have lo: "- 1 \<le> \<lfloor>log 2 v\<rfloor>" by (simp add: le_floor_iff)
  have "v < 2 powr 16" using assms(2) by simp
  then have "log 2 v < 16" using p by (simp add: log_less_iff)
  then have "\<lfloor>log 2 v\<rfloor> < 16" by (simp add: floor_less_iff)
  then show ?thesis using lo p by simp
qed

lemma round_to_float32_grid:
  fixes v :: real
  assumes v: "1 / 2 \<le> v" "v < 65536"
  shows "\<exists>k. 8 \<le> k \<and> k \<le> 24 \<and> round_to_float32 v = of_int (round (v * 2 ^ k)) / 2 ^ k"
proof -
  define e where "e = \<lfloor>log 2 \<bar>v\<bar>\<rfloor>"
  define k where "k = nat (23 - e)"
  have e: "- 1 \<le> e" "e \<le> 15" using float32_exponent_range[OF v] by (simp_all add: e_def)
  have k: "8 \<le> k" "k \<le> 24" using e by (simp_all add: k_def)
  have "of_int e - 23 = - real k" using e by (simp add: k_def)
  then have "(2::real) powr (of_int e - 23) = 2 powr (- real k)" by simp
  also have "\<dots> = 1 / 2 ^ k" by (simp add: powr_minus powr_realpow divide_inverse)
  finally have u: "(2::real) powr (of_int e - 23) = 1 / 2 ^ k" .
  have "v \<noteq> 0" using v(1) by linarith
  then have "round_to_float32 v = of_int (round (v / (1 / 2 ^ k))) * (1 / 2 ^ k)"
    unfolding round_to_float32_def Let_def e_def[symmetric] u by simp
  then have "round_to_float32 v = of_int (round (v * 2 ^ k)) / 2 ^ k" by simp
  then show ?thesis using k by blast
qed

lemma round_to_float32_levels:
  fixes n :: int
  assumes n: "1 \<le> n" "n \<le> 65536"
  shows "of_int n - 1 / 250 \<le> round_to_float32 (of_int n - EPSILONs)"
    and "round_to_float32 (of_int n - EPSILONs) \<le> of_int n"
proof -
  define v :: real where "v = of_int n - EPSILONs"
  have "real_of_int n \<le> real_of_int 65536" using n(2) by (simp only: of_int_le_iff)
  moreover have "1 \<le> real_of_int n" using n(1) by simp
  ultimately have v: "1 / 2 \<le> v" "v < 65536" by (simp_all add: v_def EPSILONs_def)
  from round_to_float32_grid[OF v] obtain k where k: "8 \<le> k" "k \<le> 24"
      and r: "round_to_float32 v = of_int (round (v * 2 ^ k)) / 2 ^ k" by blast
  have p: "(0::real) < 2 ^ k" by simp
  have "v * 2 ^ k \<le> of_int (n * 2 ^ k)" by (simp add: v_def EPSILONs_def)
  then have "round (v * 2 ^ k) \<le> round (real_of_int (n * 2 ^ k))" by (rule round_mono)
  then have "round (v * 2 ^ k) \<le> n * 2 ^ k" by (simp only: round_of_int)
  then have "real_of_int (round (v * 2 ^ k)) \<le> real_of_int (n * 2 ^ k)"
    by (simp only: of_int_le_iff)
  then have "real_of_int (round (v * 2 ^ k)) / 2 ^ k \<le> real_of_int n"
    using p by (simp add: field_simps)
  then show "round_to_float32 (of_int n - EPSILONs) \<le> of_int n"
    using r by (simp add: v_def)
  have "(2::real) ^ 8 \<le> 2 ^ k" using k(1) by (intro power_increasing) simp_all
  then have h: "1 / (2::real) ^ k \<le> 1 / 256" using p by (simp add: field_simps)
  have "v * 2 ^ k - 1 / 2 \<le> real_of_int (round (v * 2 ^ k))" by (rule of_int_round_ge)
  then have "(v * 2 ^ k - 1 / 2) / 2 ^ k \<le> real_of_int (round (v * 2 ^ k)) / 2 ^ k"
    using p by (intro divide_right_mono) simp_all
  moreover have "(v * 2 ^ k - 1 / 2) / 2 ^ k = v - 1 / 2 * (1 / 2 ^ k)"
    using p by (simp add: diff_divide_distrib)
  ultimately have "v - 1 / 2 * (1 / 2 ^ k) \<le> real_of_int (round (v * 2 ^ k)) / 2 ^ k"
    by simp
  then have "v - 1 / 512 \<le> round_to_float32 v" using h r by linarith
  then show "of_int n - 1 / 250 \<le> round_to_float32 (of_int n - EPSILONs)"
    by (simp add: v_def EPSILONs_def)
qed

lemma scalar_in_levels:
  fixes n :: int
  assumes n: "1 \<le> n" "n \<le> 65536"
  shows "of_int n - 1 / 250 \<le> scalar_in dt (of_int n - EPSILONs)"
    and "scalar_in dt (of_int n - EPSILONs) \<le> of_int n"
  using round_to_float32_levels[OF n]
  by (cases dt; simp add: scalar_in_def EPSILONs_def)+

lemma round_to_float32_256: "round_to_float32 (256 - 1 / 1000000) = 256"
proof -
  define v :: real where "v = 256 - 1 / 1000000"
  have p: "0 < v" by (simp add: v_def)
  have "(2::real) powr 7 = 128" by simp
  then have "2 powr 7 \<le> v" by (simp add: v_def)
  then have lo: "7 \<le> log 2 v" using p le_log_iff[of 2 v 7] by simp
  have "(2::real) powr 8 = 256" by simp
  then have "v < 2 powr 8" by (simp add: v_def)
  then have hi: "log 2 v < 8" using p log_less_iff[of 2 v 8] by simp
  have "\<lfloor>log 2 v\<rfloor> = 7" using lo hi by (simp add: floor_eq_iff)
  then have e: "\<lfloor>log 2 \<bar>v\<bar>\<rfloor> = 7" using p by simp
  have u: "(2::real) powr (- 16) = 1 / 65536" by (simp add: powr_neg_numeral)
  have q: "v / (1 / 65536) = 16777216 - 65536 / 1000000" by (simp add: v_def)
  have "round (16777216 - 65536 / 1000000 :: real) = 16777216"
    by (simp add: round_def floor_eq_iff)
  then have r: "round (v / (1 / 65536)) = 16777216" by (simp only: q)
  have ex: "(2::real) powr (of_int \<lfloor>log 2 \<bar>v\<bar>\<rfloor> - 23) = 1 / 65536"
    using u by (simp add: e)
  have "v \<noteq> 0" using p by simp
  then have "round_to_float32 v = of_int (round (v / (1 / 65536))) * (1 / 65536)"
    by (simp only: round_to_float32_def Let_def ex if_False)
  then show ?thesis unfolding r by (simp add: v_def)
qed

section \<open>Mu-law round trip\<close>

lemma ulaw_quantize_map:
  assumes "q_levels q = PyInt n"
  shows "ulaw_quantize dt q xs =
           Inr (map (\<lambda>x. long ((1 / 2) * (sgn x * ln (MU * \<bar>x\<bar> + 1) / LOG_MU1 + 1)
                                  * scalar_in dt (of_int n - EPSILONs))) xs)"
  using assms by (simp add: ulaw_quantize_def midrise_def ulaw_def levels_of_def o_def)

lemma ulaw_dequantize_map:
  assumes "q_levels q = PyInt n" "n \<noteq> 0"
  shows "ulaw_dequantize q ss =
           Inr (map (\<lambda>s. sgn (of_int s * 2 / of_int n - 1)
                           * (exp (\<bar>of_int s * 2 / of_int n - 1\<bar> * LOG_MU1) - 1) / MU) ss)"
  using assms
  by (simp add: ulaw_dequantize_def imidrise_def levels_of_def tensor_div_def iulaw_def o_def)

lemma scalar_in_256:
  "scalar_in Float32 (of_int 256 - EPSILONs) = 256"
  "scalar_in Float64 (of_int 256 - EPSILONs) = 256 - 1 / 1000000"
  using round_to_float32_256 by (simp_all add: scalar_in_def EPSILONs_def)

lemma near_top_sample_symbol:
  assumes "sc = 256 \<or> sc = 256 - 1 / 1000000"
  shows "long ((1 / 2) * (sgn (63 / 64) * ln (MU * \<bar>63 / 64\<bar> + 1) / LOG_MU1 + 1) * sc) = 255"
proof -
  define y where "y = ln (16129 / 64) / LOG_MU1"
  have "99219 / 100000 * LOG_MU1 \<le> ln (16129 / 64)"
    using ln_near_top_lower by (simp add: LOG_MU1_def)
  then have lo: "99219 / 100000 \<le> y"
    unfolding y_def using LOG_MU1_pos by (simp add: le_divide_eq)
  have "ln (16129 / 64) \<le> 9991 / 10000 * LOG_MU1"
    using ln_near_top_upper by (simp add: LOG_MU1_def)
  then have hi: "y \<le> 9991 / 10000"
    unfolding y_def using LOG_MU1_pos by (simp add: divide_le_eq)
  let ?m = "(1 / 2) * (y + 1) * sc"
  have "255 \<le> ?m \<and> ?m < 256"
  proof (rule disjE[OF assms])
    assume "sc = 256"
    then show ?thesis using lo hi by simp
  next
    assume s: "sc = 256 - 1 / 1000000"
    have "255 \<le> (1 / 2) * (y + 1) * (256 - 1 / 1000000)
            \<and> (1 / 2) * (y + 1) * (256 - 1 / 1000000) < 256"
      using lo hi by simp
    then show ?thesis unfolding s .
  qed
  then have b: "255 \<le> ?m" "?m < 256" by simp_all
  then have "\<lfloor>?m\<rfloor> = 255" by (simp add: floor_eq_iff)
  moreover have "0 \<le> ?m" using b(1) by linarith
  ultimately have "long ?m = 255" by (simp add: long_def)
  moreover have "sgn (63 / 64) * ln (MU * \<bar>63 / 64\<bar> + 1) / LOG_MU1 = y"
    by (simp add: y_def MU_def)
  ultimately show ?thesis by simp
qed

lemma top_sample_symbol_float32:
  "long ((1 / 2) * (sgn 1 * ln (MU * \<bar>1\<bar> + 1) / LOG_MU1 + 1) * 256) = 256"
proof -
  define y where "y = ln 256 / LOG_MU1"
  have lo: "1 \<le> y"
    unfolding y_def using LOG_MU1_le_ln_256 LOG_MU1_pos by (simp add: le_divide_eq)
  have "ln 256 \<le> 1001 / 1000 * LOG_MU1"
    using ln_256_upper by (simp add: LOG_MU1_def)
  then have hi: "y \<le> 1001 / 1000"
    unfolding y_def using LOG_MU1_pos by (simp add: divide_le_eq)
  let ?m = "(1 / 2) * (y + 1) * 256"
  have b: "256 \<le> ?m" "?m < 257" using lo hi by auto
  then have "\<lfloor>?m\<rfloor> = 256" by (simp add: floor_eq_iff)
  moreover have "0 \<le> ?m" using b(1) by linarith
  ultimately have "long ?m = 256" by (simp add: long_def)
  moreover have "sgn 1 * ln (MU * \<bar>1\<bar> + 1) / LOG_MU1 = y"
    by (simp add: y_def MU_def)
  ultimately show ?thesis by simp
qed

text \<open>
  Claim C4, as stated, fails in both of its parts. With 256 levels the sample \<open>63/64\<close>
  is quantized to symbol 255, on a float32 and on a float64 tensor, and dequantized to a
  value that is more than \<open>2 / 256\<close> away from it. On a float32 tensor the sample \<open>1\<close>
  is quantized to symbol 256, which is not below the number of levels.
\<close>

theorem ulaw_roundtrip_exceeds_resolution:
  "quantize Float32 \<lparr>q_type = ULAW_QUANT, q_levels = PyInt 256\<rparr> [63 / 64] = Inr [255]
   \<and> quantize Float64 \<lparr>q_type = ULAW_QUANT, q_levels = PyInt 256\<rparr> [63 / 64] = Inr [255]
   \<and> dequantize \<lparr>q_type = ULAW_QUANT, q_levels = PyInt 256\<rparr> [255]
       = Inr [(exp (127 / 128 * LOG_MU1) - 1) / MU]
   \<and> 2 / 256 < \<bar>(exp (127 / 128 * LOG_MU1) - 1) / MU - 63 / 64\<bar>
   \<and> quantize Float32 \<lparr>q_type = ULAW_QUANT, q_levels = PyInt 256\<rparr> [1] = Inr [256]"
proof -
  let ?q = "\<lparr>q_type = ULAW_QUANT, q_levels = PyInt 256\<rparr>"
  have l: "q_levels ?q = PyInt 256" by simp
  have u: "quantize dt ?q xs = ulaw_quantize dt ?q xs" for dt xs
    by (simp add: quantize_def ULAW_QUANT_def LINEAR_QUANT_def)
  have a32: "quantize Float32 ?q [63 / 64] = Inr [255]"
    unfolding u ulaw_quantize_map[OF l] scalar_in_256
    using near_top_sample_symbol[of 256] by simp
  have a64: "quantize Float64 ?q [63 / 64] = Inr [255]"
    unfolding u ulaw_quantize_map[OF l] scalar_in_256
    using near_top_sample_symbol[of "256 - 1 / 1000000"] by simp
  have t32: "quantize Float32 ?q [1] = Inr [256]"
    unfolding u ulaw_quantize_map[OF l] scalar_in_256
    using top_sample_symbol_float32 by simp
  have "dequantize ?q [255] = ulaw_dequantize ?q [255]"
    by (simp add: dequantize_def ULAW_QUANT_def LINEAR_QUANT_def)
  also have "\<dots> = Inr [(exp (127 / 128 * LOG_MU1) - 1) / MU]"
    using ulaw_dequantize_map[OF l, of "[255]"] by simp
  finally have b: "dequantize ?q [255] = Inr [(exp (127 / 128 * LOG_MU1) - 1) / MU]" .
  have "(exp (127 / 128 * LOG_MU1) - 1) / MU \<le> 245 / 255"
    using exp_top_cell by (simp add: MU_def)
  then have c: "2 / 256 < \<bar>(exp (127 / 128 * LOG_MU1) - 1) / MU - 63 / 64\<bar>" by linarith
  show ?thesis using a32 a64 b c t32 by blast
qed

lemma midrise_cell:
  fixes y sc :: real and n :: int
  assumes n: "1 \<le> n" "n \<le> 65536" and y: "\<bar>y\<bar> \<le> 1 + 1 / 10000000000000000"
    and sc: "of_int n - 1 / 250 \<le> sc" "sc \<le> of_int n"
  defines "q \<equiv> long ((1 / 2) * (y + 1) * sc)"
  shows "0 \<le> q \<and> q \<le> n \<and> (sc \<le> of_int n - 1 / 2000000 \<longrightarrow> q < n)
       \<and> \<bar>real_of_int q * 2 / real_of_int n - 1 - y\<bar> \<le> 201 / 100 / real_of_int n
       \<and> \<bar>real_of_int q * 2 / real_of_int n - 1\<bar> \<le> 1"
proof -
  define N :: real where "N = of_int n"
  define w where "w = y + 1"
  define P where "P = w * N"
  define Q where "Q = w * sc"
  define m where "m = (1 / 2) * (y + 1) * sc"
  have N1: "1 \<le> N" using n(1) by (simp add: N_def)
  have "real_of_int n \<le> real_of_int 65536" using n(2) by (simp only: of_int_le_iff)
  then have N2: "N \<le> 65536" by (simp add: N_def)
  have w: "- (1 / 10000000000000000) \<le> w" "w \<le> 2 + 1 / 10000000000000000"
    using y by (simp_all add: w_def abs_le_iff)
  have s: "N - 1 / 250 \<le> sc" "sc \<le> N" using sc by (simp_all add: N_def)
  have sp: "0 < sc" using s(1) N1 by linarith
  have m: "m = Q / 2" by (simp add: m_def Q_def w_def)
  have q: "q = long m" by (simp add: q_def m_def)
  have Qup: "Q \<le> (2 + 1 / 10000000000000000) * sc"
    unfolding Q_def using w(2) sp by (intro mult_right_mono) simp_all
  have "- (w * sc) \<le> 1 / 10000000000000000 * sc"
    using w(1) sp mult_right_mono[of "- w" "1 / 10000000000000000" sc] by simp
  also have "\<dots> \<le> 1 / 10000000000000000 * 65536"
    using s(2) N2 by (intro mult_left_mono) simp_all
  also have "\<dots> \<le> 1" by simp
  finally have Qlo: "- 1 \<le> Q" by (simp add: Q_def)
  have mN: "m < N + 1" using Qup s(2) N2 unfolding m by simp
  have mN': "m < N" if "sc \<le> N - 1 / 2000000" using Qup that N2 unfolding m by simp
  have cq: "of_int q * 2 / of_int n - 1 - y = (of_int q * 2 - P) / N"
    using N1 by (simp add: P_def w_def N_def field_simps)
  show ?thesis
  proof (cases "0 \<le> m")
    case True
    then have qf: "q = \<lfloor>m\<rfloor>" by (simp add: q long_def)
    have q0: "0 \<le> q" using True by (simp add: qf)
    have qm: "of_int q \<le> m" "m - 1 < of_int q" unfolding qf by linarith+
    have "real_of_int q < real_of_int (n + 1)" using qm(1) mN by (simp add: N_def)
    then have "q < n + 1" by (simp only: of_int_less_iff)
    then have qn: "q \<le> n" by simp
    have qs: "q < n" if "sc \<le> of_int n - 1 / 2000000"
    proof -
      have "real_of_int q < real_of_int n" using qm(1) mN' that by (simp add: N_def)
      then show ?thesis by (simp only: of_int_less_iff)
    qed
    have wP: "0 \<le> w"
    proof (rule ccontr)
      assume "\<not> 0 \<le> w"
      then have "w < 0" by simp
      then have "w * sc < 0" using sp by (rule mult_neg_pos)
      then show False using True unfolding m Q_def by simp
    qed
    have "w * (N - sc) \<le> (2 + 1 / 10000000000000000) * (1 / 250)"
      using w(2) wP s by (intro mult_mono) simp_all
    moreover have "0 \<le> w * (N - sc)" using wP s(2) by simp
    moreover have "P = Q + w * (N - sc)" by (simp add: P_def Q_def algebra_simps)
    ultimately have d: "\<bar>of_int q * 2 - P\<bar> \<le> 201 / 100"
      using qm unfolding m by (simp add: abs_le_iff)
    have "\<bar>(of_int q * 2 - P) / N\<bar> = \<bar>of_int q * 2 - P\<bar> / N" using N1 by simp
    also have "\<dots> \<le> 201 / 100 / N" using d N1 by (intro divide_right_mono) simp_all
    finally have e: "\<bar>of_int q * 2 / of_int n - 1 - y\<bar> \<le> 201 / 100 / of_int n"
      unfolding cq by (simp add: N_def)
    have r0: "0 \<le> real_of_int q" using q0 by simp
    have r1: "real_of_int q \<le> N" using qn by (simp add: N_def)
    have "0 \<le> real_of_int q * 2 / N" using r0 N1 by simp
    moreover have "real_of_int q * 2 / N \<le> 2" using r1 N1 by (simp add: field_simps)
    ultimately have "\<bar>real_of_int q * 2 / N - 1\<bar> \<le> 1" by (simp add: abs_le_iff)
    then show ?thesis using q0 qn qs e by (simp add: N_def)
  next
    case False
    then have neg: "m < 0" by simp
    have "- 1 < m" using Qlo unfolding m by linarith
    then have "\<lceil>m\<rceil> = 0" using neg by (simp add: ceiling_eq_iff)
    then have q0: "q = 0" using False by (simp add: q long_def)
    have wneg: "w < 0"
    proof (rule ccontr)
      assume "\<not> w < 0"
      then have "0 \<le> w" by simp
      moreover have "0 \<le> sc" using sp by simp
      ultimately have "0 \<le> w * sc" by (rule mult_nonneg_nonneg)
      then show False using neg unfolding m Q_def by simp
    qed
    have "\<bar>- 1 - y\<bar> \<le> 1 / 10000000000000000" using w(1) wneg by (simp add: w_def abs_le_iff)
    also have "\<dots> \<le> 201 / 100 / N" using N1 N2 by (simp add: field_simps)
    finally have "\<bar>of_int q * 2 / of_int n - 1 - y\<bar> \<le> 201 / 100 / of_int n"
      by (simp add: q0 N_def)
    then show ?thesis using n(1) by (simp add: q0)
  qed
qed

lemma iulaw_ulaw_inverse:
  fixes x :: real
  defines "y \<equiv> sgn x * ln (MU * \<bar>x\<bar> + 1) / LOG_MU1"
  shows "sgn y * (exp (\<bar>y\<bar> * LOG_MU1) - 1) / MU = x"
proof (cases "x = 0")
  case True
  then show ?thesis by (simp add: y_def)
next
  case False
  define a where "a = ln (MU * \<bar>x\<bar> + 1)"
  have arg: "1 < MU * \<bar>x\<bar> + 1" using False by (simp add: MU_def)
  then have a: "0 < a" by (simp add: a_def)
  have y: "y = sgn x * (a / LOG_MU1)" by (simp add: y_def a_def)
  have q: "0 < a / LOG_MU1" using a LOG_MU1_pos by simp
  have "sgn (a / LOG_MU1) = 1" using q by (simp only: sgn_pos)
  then have sy: "sgn y = sgn x" unfolding y by (simp only: sgn_mult sgn_sgn mult_1_right)
  have "\<bar>a / LOG_MU1\<bar> = a / LOG_MU1" using q by (simp only: abs_of_pos)
  moreover have "\<bar>sgn x\<bar> = 1" using False by (simp add: sgn_if)
  ultimately have "\<bar>y\<bar> = a / LOG_MU1" unfolding y by (simp only: abs_mult mult_1)
  then have "\<bar>y\<bar> * LOG_MU1 = a" using LOG_MU1_pos by simp
  then have "exp (\<bar>y\<bar> * LOG_MU1) = MU * \<bar>x\<bar> + 1" using arg by (simp add: a_def)
  then have "sgn y * (exp (\<bar>y\<bar> * LOG_MU1) - 1) / MU = sgn x * \<bar>x\<bar>"
    by (simp add: sy MU_def)
  then show ?thesis by (simp add: mult_sgn_abs)
qed

lemma ulaw_bounded:
  fixes x :: real
  assumes "\<bar>x\<bar> \<le> 1"
  shows "\<bar>sgn x * ln (MU * \<bar>x\<bar> + 1) / LOG_MU1\<bar> \<le> 1 + 1 / 10000000000000000"
proof -
  have "ln (MU * \<bar>x\<bar> + 1) \<le> ln 256" using assms by (simp add: MU_def)
  then have u: "ln (MU * \<bar>x\<bar> + 1) < 8 * (69314718055994535 / 100000000000000000)"
    using ln_256_upper by linarith
  have l: "0 \<le> ln (MU * \<bar>x\<bar> + 1)" by (simp add: MU_def)
  have "\<bar>sgn x * ln (MU * \<bar>x\<bar> + 1) / LOG_MU1\<bar>
          = \<bar>sgn x\<bar> * (ln (MU * \<bar>x\<bar> + 1) / LOG_MU1)"
    using l LOG_MU1_pos by (simp add: abs_mult)
  also have "\<dots> \<le> 1 * (ln (MU * \<bar>x\<bar> + 1) / LOG_MU1)"
    using l LOG_MU1_pos by (intro mult_right_mono) (simp_all add: sgn_if)
  also have "\<dots> \<le> 1 + 1 / 10000000000000000"
    using u by (simp add: LOG_MU1_def field_simps)
  finally show ?thesis .
qed

lemma exp_increment:
  fixes s t :: real
  assumes "s \<le> t" "t \<le> r"
  shows "exp (t * LOG_MU1) - exp (s * LOG_MU1) \<le> (t - s) * (LOG_MU1 * exp (r * LOG_MU1))"
proof -
  have "1 + (s - t) * LOG_MU1 \<le> exp ((s - t) * LOG_MU1)" by (rule exp_ge_add_one_self)
  then have "exp (t * LOG_MU1) * (1 + (s - t) * LOG_MU1)
               \<le> exp (t * LOG_MU1) * exp ((s - t) * LOG_MU1)"
    by (intro mult_left_mono) simp_all
  also have "\<dots> = exp (s * LOG_MU1)"
    by (simp add: exp_add[symmetric] algebra_simps)
  finally have "exp (t * LOG_MU1) - exp (s * LOG_MU1)
                  \<le> (t - s) * LOG_MU1 * exp (t * LOG_MU1)"
    by (simp add: algebra_simps)
  also have "\<dots> \<le> (t - s) * LOG_MU1 * exp (r * LOG_MU1)"
    using assms LOG_MU1_pos by (intro mult_left_mono) simp_all
  finally show ?thesis by (simp add: mult.assoc)
qed

lemma expm1_increment:
  fixes s t r :: real
  assumes "0 \<le> s" "s \<le> t" "t \<le> r"
  shows "0 \<le> exp (t * LOG_MU1) - exp (s * LOG_MU1)"
    and "exp (t * LOG_MU1) - exp (s * LOG_MU1) \<le> (t - s) * (LOG_MU1 * exp (r * LOG_MU1))"
proof -
  have "s * LOG_MU1 \<le> t * LOG_MU1" using assms(2) LOG_MU1_pos by simp
  then show "0 \<le> exp (t * LOG_MU1) - exp (s * LOG_MU1)" by simp
  show "exp (t * LOG_MU1) - exp (s * LOG_MU1) \<le> (t - s) * (LOG_MU1 * exp (r * LOG_MU1))"
    using assms(2,3) by (rule exp_increment)
qed

lemma iulaw_lipschitz_ordered:
  fixes a b r :: real
  assumes ab: "b \<le> a" and r: "\<bar>a\<bar> \<le> r" "\<bar>b\<bar> \<le> r"
  shows "\<bar>sgn a * (exp (\<bar>a\<bar> * LOG_MU1) - 1) / MU
          - sgn b * (exp (\<bar>b\<bar> * LOG_MU1) - 1) / MU\<bar>
         \<le> (a - b) * (LOG_MU1 * exp (r * LOG_MU1)) / MU"
proof -
  define C where "C = LOG_MU1 * exp (r * LOG_MU1)"
  consider (pos) "0 \<le> b" | (neg) "a \<le> 0" | (mixed) "b < 0" "0 < a" by linarith
  then have "\<bar>sgn a * (exp (\<bar>a\<bar> * LOG_MU1) - 1) - sgn b * (exp (\<bar>b\<bar> * LOG_MU1) - 1)\<bar>
               \<le> (a - b) * C"
  proof cases
    case pos
    then have a0: "0 \<le> a" using ab by linarith
    have e: "sgn a * (exp (\<bar>a\<bar> * LOG_MU1) - 1) = exp (a * LOG_MU1) - 1"
            "sgn b * (exp (\<bar>b\<bar> * LOG_MU1) - 1) = exp (b * LOG_MU1) - 1"
      using a0 pos by (auto simp: sgn_if)
    define D where "D = exp (a * LOG_MU1) - exp (b * LOG_MU1)"
    have "a \<le> r" using r(1) by linarith
    from expm1_increment[OF pos ab this] have "0 \<le> D" "D \<le> (a - b) * C"
      by (simp_all add: D_def C_def)
    then have "\<bar>D\<bar> \<le> (a - b) * C" by (simp add: abs_le_iff)
    moreover have "exp (a * LOG_MU1) - 1 - (exp (b * LOG_MU1) - 1) = D" by (simp add: D_def)
    ultimately show ?thesis unfolding e by simp
  next
    case neg
    then have b0: "b \<le> 0" using ab by linarith
    have e: "sgn a * (exp (\<bar>a\<bar> * LOG_MU1) - 1) = - (exp (- a * LOG_MU1) - 1)"
            "sgn b * (exp (\<bar>b\<bar> * LOG_MU1) - 1) = - (exp (- b * LOG_MU1) - 1)"
      using b0 neg by (auto simp: sgn_if)
    define D where "D = exp (- b * LOG_MU1) - exp (- a * LOG_MU1)"
    have "0 \<le> - a" "- a \<le> - b" "- b \<le> r" using neg ab r(2) by linarith+
    from expm1_increment[OF this] have "0 \<le> D" "D \<le> (- b - - a) * C"
      by (simp_all add: D_def C_def)
    then have "\<bar>D\<bar> \<le> (a - b) * C" by (simp add: abs_le_iff)
    moreover have "- (exp (- a * LOG_MU1) - 1) - - (exp (- b * LOG_MU1) - 1) = D"
      by (simp add: D_def)
    ultimately show ?thesis unfolding e by simp
  next
    case mixed
    have e: "sgn a * (exp (\<bar>a\<bar> * LOG_MU1) - 1) = exp (a * LOG_MU1) - 1"
            "sgn b * (exp (\<bar>b\<bar> * LOG_MU1) - 1) = - (exp (- b * LOG_MU1) - 1)"
      using mixed by (auto simp: sgn_if)
    define X where "X = exp (a * LOG_MU1) - 1"
    define Y where "Y = exp (- b * LOG_MU1) - 1"
    have "(0::real) \<le> 0" "0 \<le> a" "a \<le> r" using mixed r(1) by linarith+
    from expm1_increment[OF this] have A: "0 \<le> X" "X \<le> a * C"
      by (simp_all add: X_def C_def)
    have "(0::real) \<le> 0" "0 \<le> - b" "- b \<le> r" using mixed r(2) by linarith+
    from expm1_increment[OF this] have B: "0 \<le> Y" "Y \<le> - b * C"
      by (simp_all add: Y_def C_def)
    have "(a - b) * C = a * C + - b * C" by (simp add: algebra_simps)
    then have "\<bar>X - - Y\<bar> \<le> (a - b) * C" using A B by (simp add: abs_le_iff)
    then show ?thesis unfolding e X_def Y_def .
  qed
  then have "\<bar>sgn a * (exp (\<bar>a\<bar> * LOG_MU1) - 1) - sgn b * (exp (\<bar>b\<bar> * LOG_MU1) - 1)\<bar> / MU
               \<le> (a - b) * C / MU"
    by (intro divide_right_mono) (simp_all add: MU_def)
  then show ?thesis by (simp add: diff_divide_distrib[symmetric] MU_def C_def)
qed

lemma iulaw_lipschitz:
  fixes a b r :: real
  assumes r: "\<bar>a\<bar> \<le> r" "\<bar>b\<bar> \<le> r"
  shows "\<bar>sgn a * (exp (\<bar>a\<bar> * LOG_MU1) - 1) / MU
          - sgn b * (exp (\<bar>b\<bar> * LOG_MU1) - 1) / MU\<bar>
         \<le> \<bar>a - b\<bar> * (LOG_MU1 * exp (r * LOG_MU1)) / MU"
proof (cases "b \<le> a")
  case True
  then show ?thesis using iulaw_lipschitz_ordered[OF True r] by simp
next
  case False
  then have ba: "a \<le> b" by simp
  have "\<bar>sgn a * (exp (\<bar>a\<bar> * LOG_MU1) - 1) / MU - sgn b * (exp (\<bar>b\<bar> * LOG_MU1) - 1) / MU\<bar>
        = \<bar>sgn b * (exp (\<bar>b\<bar> * LOG_MU1) - 1) / MU - sgn a * (exp (\<bar>a\<bar> * LOG_MU1) - 1) / MU\<bar>"
    by (rule abs_minus_commute)
  also have "\<dots> \<le> (b - a) * (LOG_MU1 * exp (r * LOG_MU1)) / MU"
    using ba r(2) r(1) by (rule iulaw_lipschitz_ordered)
  finally show ?thesis using ba by simp
qed

lemma ulaw_roundtrip_sample:
  fixes x sc :: real and n :: int
  assumes n: "1 \<le> n" "n \<le> 65536" and x: "\<bar>x\<bar> \<le> 1"
    and sc: "of_int n - 1 / 250 \<le> sc" "sc \<le> of_int n"
  defines "y \<equiv> sgn x * ln (MU * \<bar>x\<bar> + 1) / LOG_MU1"
  defines "s \<equiv> long ((1 / 2) * (y + 1) * sc)"
  defines "c \<equiv> real_of_int s * 2 / real_of_int n - 1"
  shows "0 \<le> s \<and> (sc \<le> of_int n - 1 / 2000000 \<longrightarrow> s < n)
       \<and> \<bar>sgn c * (exp (\<bar>c\<bar> * LOG_MU1) - 1) / MU - x\<bar> \<le> 12 / real_of_int n"
proof -
  define r :: real where "r = 10000001 / 10000000"
  define N where "N = real_of_int n"
  have N1: "1 \<le> N" using n(1) by (simp add: N_def)
  have yb: "\<bar>y\<bar> \<le> 1 + 1 / 10000000000000000" unfolding y_def using x by (rule ulaw_bounded)
  from midrise_cell[OF n yb sc]
  have cell: "0 \<le> s" "sc \<le> of_int n - 1 / 2000000 \<longrightarrow> s < n"
      "\<bar>c - y\<bar> \<le> 201 / 100 / N" "\<bar>c\<bar> \<le> 1"
    by (simp_all add: s_def c_def N_def)
  have cr: "\<bar>c\<bar> \<le> r" using cell(4) by (simp add: r_def)
  have yr: "\<bar>y\<bar> \<le> r" using yb by (simp add: r_def)
  have inv: "sgn y * (exp (\<bar>y\<bar> * LOG_MU1) - 1) / MU = x"
    unfolding y_def by (rule iulaw_ulaw_inverse)
  define K where "K = LOG_MU1 * exp (r * LOG_MU1) / MU"
  have "exp (r * LOG_MU1) \<le> 257" by (rule exp_LOG_MU1_scaled) (simp add: r_def)
  then have "LOG_MU1 * exp (r * LOG_MU1) \<le> LOG_MU1 * 257"
    using LOG_MU1_pos by (intro mult_left_mono) simp_all
  then have K: "K \<le> 56 / 10" by (simp add: K_def MU_def LOG_MU1_def)
  have K0: "0 \<le> K" using LOG_MU1_pos by (simp add: K_def MU_def)
  have "\<bar>sgn c * (exp (\<bar>c\<bar> * LOG_MU1) - 1) / MU - x\<bar>
          = \<bar>sgn c * (exp (\<bar>c\<bar> * LOG_MU1) - 1) / MU
              - sgn y * (exp (\<bar>y\<bar> * LOG_MU1) - 1) / MU\<bar>"
    by (simp only: inv)
  also have "\<dots> \<le> \<bar>c - y\<bar> * (LOG_MU1 * exp (r * LOG_MU1)) / MU"
    using cr yr by (rule iulaw_lipschitz)
  also have "\<dots> = \<bar>c - y\<bar> * K" by (simp add: K_def)
  also have "\<dots> \<le> (201 / 100 / N) * K" using cell(3) K0 by (rule mult_right_mono)
  also have "\<dots> \<le> (201 / 100 / N) * (56 / 10)" using K N1 by (intro mult_left_mono) simp_all
  also have "\<dots> \<le> 12 / N" using N1 by (simp add: field_simps)
  finally show ?thesis using cell(1,2) by (simp add: N_def)
qed

text \<open>
  Claim C4, as amended. For a mu-law codec with an integer \<open>q_levels = n\<close>,
  \<open>1 \<le> n \<le> 65536\<close>, a tensor of either dtype and samples that all lie in \<open>[-1, 1]\<close>:
  \<open>quantize\<close> returns one symbol per sample, none negative, and \<open>dequantize\<close> of these
  symbols differs from the input by at most \<open>12 / n\<close> per sample. On a float64 tensor
  every symbol is below \<open>n\<close>.
\<close>

theorem ulaw_roundtrip_bound:
  assumes "q_type q = ULAW_QUANT" "q_levels q = PyInt n" "1 \<le> n" "n \<le> 65536"
    and "\<forall>x \<in> set xs. \<bar>x\<bar> \<le> 1"
  shows "\<exists>ss ys. quantize dt q xs = Inr ss \<and> length ss = length xs
            \<and> (\<forall>s \<in> set ss. 0 \<le> s \<and> (dt = Float64 \<longrightarrow> s < n))
            \<and> dequantize q ss = Inr ys \<and> length ys = length xs
            \<and> (\<forall>i < length xs. \<bar>ys ! i - xs ! i\<bar> \<le> 12 / real_of_int n)"
proof -
  define sc where "sc = scalar_in dt (of_int n - EPSILONs)"
  let ?sym = "\<lambda>x. long ((1 / 2) * (sgn x * ln (MU * \<bar>x\<bar> + 1) / LOG_MU1 + 1) * sc)"
  let ?val = "\<lambda>s. sgn (of_int s * 2 / of_int n - 1)
                   * (exp (\<bar>of_int s * 2 / of_int n - 1\<bar> * LOG_MU1) - 1) / MU"
  have nz: "n \<noteq> 0" using assms(3) by simp
  have sc: "of_int n - 1 / 250 \<le> sc" "sc \<le> of_int n"
    unfolding sc_def using assms(3,4) by (rule scalar_in_levels)+
  have sc64: "sc \<le> of_int n - 1 / 2000000" if "dt = Float64"
    using that by (simp add: sc_def scalar_in_def EPSILONs_def)
  have Q: "quantize dt q xs = Inr (map ?sym xs)"
    using assms(1) ulaw_quantize_map[OF assms(2), of dt xs]
    by (simp add: quantize_def ULAW_QUANT_def LINEAR_QUANT_def sc_def)
  have D: "dequantize q (map ?sym xs) = Inr (map ?val (map ?sym xs))"
    using assms(1) ulaw_dequantize_map[OF assms(2) nz, of "map ?sym xs"]
    by (simp add: dequantize_def ULAW_QUANT_def LINEAR_QUANT_def)
  have S: "0 \<le> ?sym x \<and> (dt = Float64 \<longrightarrow> ?sym x < n)
             \<and> \<bar>?val (?sym x) - x\<bar> \<le> 12 / real_of_int n"
    if "x \<in> set xs" for x
    using ulaw_roundtrip_sample[OF assms(3,4) _ sc, of x] assms(5) that sc64 by blast
  have R: "\<forall>s \<in> set (map ?sym xs). 0 \<le> s \<and> (dt = Float64 \<longrightarrow> s < n)" using S by auto
  have E: "\<forall>i < length xs. \<bar>map ?val (map ?sym xs) ! i - xs ! i\<bar> \<le> 12 / real_of_int n"
    using S by (simp add: nth_mem)
  show ?thesis
    apply (rule exI[of _ "map ?sym xs"])
    apply (rule exI[of _ "map ?val (map ?sym xs)"])
    using Q D R E by simp
qed

theorem ulaw_roundtrip_bound_witness:
  "q_type \<lparr>q_type = ULAW_QUANT, q_levels = PyInt 256\<rparr> = ULAW_QUANT
   \<and> q_levels \<lparr>q_type = ULAW_QUANT, q_levels = PyInt 256\<rparr> = PyInt 256
   \<and> (1::int) \<le> 256 \<and> (256::int) \<le> 65536 \<and> \<bar>1 / 2 :: real\<bar> \<le> 1
   \<and> (\<exists>ss ys. quantize Float64 \<lparr>q_type = ULAW_QUANT, q_levels = PyInt 256\<rparr> [1 / 2] = Inr ss
          \<and> length ss = 1 \<and> 0 \<le> ss ! 0 \<and> ss ! 0 < 256
          \<and> dequantize \<lparr>q_type = ULAW_QUANT, q_levels = PyInt 256\<rparr> ss = Inr ys
          \<and> length ys = 1 \<and> \<bar>ys ! 0 - 1 / 2\<bar> \<le> 12 / 256)"
proof -
  let ?q = "\<lparr>q_type = ULAW_QUANT, q_levels = PyInt 256\<rparr>"
  have a: "q_type ?q = ULAW_QUANT" and b: "q_levels ?q = PyInt 256" by simp_all
  have c: "(1::int) \<le> 256" and d: "(256::int) \<le> 65536" by simp_all
  have e: "\<forall>x \<in> set [1 / 2 :: real]. \<bar>x\<bar> \<le> 1" by simp
  from ulaw_roundtrip_bound[OF a b c d e, of Float64]
  obtain ss ys where r: "quantize Float64 ?q [1 / 2] = Inr ss"
      "length ss = length [1 / 2 :: real]"
      "\<forall>s \<in> set ss. 0 \<le> s \<and> (Float64 = Float64 \<longrightarrow> s < 256)"
      "dequantize ?q ss = Inr ys" "length ys = length [1 / 2 :: real]"
      "\<forall>i < length [1 / 2 :: real]. \<bar>ys ! i - [1 / 2] ! i\<bar> \<le> 12 / real_of_int 256"
    by blast
  have l: "length ss = 1" using r(2) by simp
  then have "ss ! 0 \<in> set ss" by (simp add: nth_mem)
  then have s0: "0 \<le> ss ! 0 \<and> ss ! 0 < 256" using r(3) by blast
  have y0: "\<bar>ys ! 0 - 1 / 2\<bar> \<le> 12 / 256" using r(6) by simp
  have "quantize Float64 ?q [1 / 2] = Inr ss \<and> length ss = 1 \<and> 0 \<le> ss ! 0 \<and> ss ! 0 < 256
          \<and> dequantize ?q ss = Inr ys \<and> length ys = 1 \<and> \<bar>ys ! 0 - 1 / 2\<bar> \<le> 12 / 256"
    using r(1,4,5) l s0 y0 by simp
  moreover have "\<bar>1 / 2 :: real\<bar> \<le> 1" by simp
  ultimately show ?thesis using a b c d by blast
qed


section \<open>Decimal strings\<close>

lemma digit_char_roundtrip:
  assumes "d < 10"
  shows "is_digit (digit_char d) \<and> digit_val (digit_char d) = d"
proof -
  from assms have "d = 0 \<or> d = 1 \<or> d = 2 \<or> d = 3 \<or> d = 4 \<or> d = 5 \<or> d = 6 \<or> d = 7
                    \<or> d = 8 \<or> d = 9"
    by arith
  then show ?thesis
    by (elim disjE) (simp_all add: digit_char_def is_digit_def digit_val_def)
qed

lemma foldl_digits_snoc:
  "foldl (\<lambda>a c. 10 * a + digit_val c) 0 (s @ [c])
     = 10 * foldl (\<lambda>a c. 10 * a + digit_val c) 0 s + digit_val c"
  by simp

lemma str_of_nat_digits: "str_of_nat n \<noteq> [] \<and> list_all is_digit (str_of_nat n)"
proof (induction n rule: str_of_nat.induct)
  case (1 n)
  show ?case
  proof (cases "n < 10")
    case True
    then show ?thesis using digit_char_roundtrip[of n] by (subst (1 2) str_of_nat.simps) simp
  next
    case False
    have m: "n mod 10 < 10" by simp
    show ?thesis
      using False 1 digit_char_roundtrip[OF m] by (subst (1 2) str_of_nat.simps) simp
  qed
qed

lemma nat_of_digits_str_of_nat: "nat_of_digits (str_of_nat n) = Some n"
proof (induction n rule: str_of_nat.induct)
  case (1 n)
  show ?case
  proof (cases "n < 10")
    case True
    then show ?thesis
      using digit_char_roundtrip[of n]
      by (subst str_of_nat.simps) (simp add: nat_of_digits_def)
  next
    case False
    have m: "n mod 10 < 10" by simp
    from False 1 have ih: "nat_of_digits (str_of_nat (n div 10)) = Some (n div 10)" by simp
    then have f: "foldl (\<lambda>a c. 10 * a + digit_val c) 0 (str_of_nat (n div 10)) = n div 10"
      by (simp add: nat_of_digits_def split: if_splits)
    have d: "list_all is_digit (str_of_nat (n div 10))" using str_of_nat_digits by blast
    have "nat_of_digits (str_of_nat (n div 10) @ [digit_char (n mod 10)])
            = Some (10 * (n div 10) + n mod 10)"
      using d f digit_char_roundtrip[OF m] by (simp add: nat_of_digits_def)
    then show ?thesis using False by (subst str_of_nat.simps) simp
  qed
qed

lemma str_of_nat_no_minus: "hd (str_of_nat n) \<noteq> CHR ''-''"
proof -
  have "str_of_nat n \<noteq> []" "list_all is_digit (str_of_nat n)" using str_of_nat_digits by blast+
  then have "is_digit (hd (str_of_nat n))" by (cases "str_of_nat n") simp_all
  then show ?thesis by (auto simp: is_digit_def)
qed

lemma np_float_str_of_int: "np_float (str_of_int i) = Inr (real_of_int i)"
proof (cases "i < 0")
  case True
  then show ?thesis
    by (simp add: np_float_def str_of_int_def nat_of_digits_str_of_nat)
next
  case False
  obtain c t where ct: "str_of_nat (nat i) = c # t"
    using str_of_nat_digits[of "nat i"] by (cases "str_of_nat (nat i)") auto
  have "c \<noteq> CHR ''-''" using str_of_nat_no_minus[of "nat i"] ct by simp
  moreover have "nat_of_digits (c # t) = Some (nat i)"
    using nat_of_digits_str_of_nat[of "nat i"] ct by simp
  ultimately show ?thesis using False ct by (simp add: np_float_def str_of_int_def)
qed


section \<open>Block assignment\<close>

lemma assign_block_rows:
  assumes "ncols val = tc" "length (rows val) = r" "r \<le> length (rows target)"
  shows "assign_block target r c0 tc val =
           Inr (target\<lparr>rows := map (\<lambda>(old, v). take c0 old @ v @ drop (c0 + tc) old)
                                   (zip (take r (rows target)) (rows val))
                               @ drop r (rows target)\<rparr>)"
  using assms by (simp add: assign_block_def spread_def)

lemma splice_nth:
  assumes "length T = n" "length V = tc" "c0 + tc \<le> n" "j < n"
  shows "(take c0 T @ V @ drop (c0 + tc) T) ! j
           = (if c0 \<le> j \<and> j < c0 + tc then V ! (j - c0) else T ! j)"
proof -
  define A where "A = take c0 T"
  define C where "C = drop (c0 + tc) T"
  have lA: "length A = c0" using assms(1,3) by (simp add: A_def)
  consider (a) "j < c0" | (b) "c0 \<le> j" "j < c0 + tc" | (c) "c0 + tc \<le> j" by linarith
  then have "(A @ V @ C) ! j = (if c0 \<le> j \<and> j < c0 + tc then V ! (j - c0) else T ! j)"
  proof cases
    case a
    then have "(A @ V @ C) ! j = A ! j" using lA by (simp add: nth_append)
    also have "\<dots> = T ! j" using a by (simp add: A_def)
    finally show ?thesis using a by simp
  next
    case b
    then have "(A @ V @ C) ! j = (V @ C) ! (j - c0)" using lA by (simp add: nth_append)
    also have "\<dots> = V ! (j - c0)"
    proof -
      have "j - c0 < length V" using b assms(2) by linarith
      then show ?thesis by (simp add: nth_append)
    qed
    finally show ?thesis using b by simp
  next
    case c
    then have "(A @ V @ C) ! j = (V @ C) ! (j - c0)" using lA by (simp add: nth_append)
    also have "\<dots> = C ! (j - c0 - tc)"
    proof -
      have "\<not> j - c0 < length V" using c assms(2) by linarith
      then show ?thesis using assms(2) by (simp add: nth_append)
    qed
    also have "\<dots> = T ! (c0 + tc + (j - c0 - tc))"
      unfolding C_def using c assms(1,4) by (intro nth_drop) simp
    also have "c0 + tc + (j - c0 - tc) = j" using c by simp
    finally show ?thesis using c by simp
  qed
  then show ?thesis by (simp only: A_def C_def)
qed

lemma assign_block_nth:
  assumes v: "ncols val = tc" "length (rows val) = r" "r \<le> length (rows target)"
    and wt: "\<forall>row \<in> set (rows target). length row = n" and c: "c0 + tc \<le> n"
    and wv: "\<forall>row \<in> set (rows val). length row = tc"
  shows "\<exists>t. assign_block target r c0 tc val = Inr t
            \<and> ncols t = ncols target
            \<and> length (rows t) = length (rows target)
            \<and> (\<forall>row \<in> set (rows t). length row = n)
            \<and> (\<forall>i < length (rows target). \<forall>j < n.
                  rows t ! i ! j =
                    (if i < r \<and> c0 \<le> j \<and> j < c0 + tc then rows val ! i ! (j - c0)
                     else rows target ! i ! j))"
proof -
  let ?f = "\<lambda>(old, v). take c0 old @ v @ drop (c0 + tc) old"
  let ?new = "map ?f (zip (take r (rows target)) (rows val)) @ drop r (rows target)"
  have eq: "assign_block target r c0 tc val = Inr (target\<lparr>rows := ?new\<rparr>)"
    using v by (rule assign_block_rows)
  have len: "length ?new = length (rows target)" using v(2,3) by simp
  have lenrow: "length (?f (old, w)) = n" if "length old = n" "length w = tc" for old w
    using that c by simp
  have rows_len: "\<forall>row \<in> set ?new. length row = n"
  proof
    fix row assume "row \<in> set ?new"
    then have "row \<in> set (map ?f (zip (take r (rows target)) (rows val)))
                 \<or> row \<in> set (drop r (rows target))"
      by (simp only: set_append Un_iff)
    then show "length row = n"
    proof
      assume "row \<in> set (map ?f (zip (take r (rows target)) (rows val)))"
      then obtain p where p: "p \<in> set (zip (take r (rows target)) (rows val))" "row = ?f p"
        by (auto simp only: set_map image_iff)
      obtain old w where ow: "p = (old, w)" by (cases p)
      have "old \<in> set (rows target)" "w \<in> set (rows val)"
        using p(1) unfolding ow by (auto dest: set_zip_leftD set_zip_rightD in_set_takeD)
      then have "length old = n" "length w = tc" using wt wv by simp_all
      then show ?thesis using p(2) c unfolding ow by simp
    next
      assume "row \<in> set (drop r (rows target))"
      then show ?thesis using wt by (auto dest: in_set_dropD)
    qed
  qed
  have nth: "?new ! i ! j =
               (if i < r \<and> c0 \<le> j \<and> j < c0 + tc then rows val ! i ! (j - c0)
                else rows target ! i ! j)"
    if i: "i < length (rows target)" and j: "j < n" for i j
  proof (cases "i < r")
    case True
    have lt: "length (rows target ! i) = n" using wt i by simp
    have lv: "length (rows val ! i) = tc" using wv v(2) True by simp
    have "?new ! i = ?f (rows target ! i, rows val ! i)"
      using True v(2,3) by (simp add: nth_append)
    then have e: "?new ! i = take c0 (rows target ! i) @ rows val ! i @ drop (c0 + tc) (rows target ! i)"
      by simp
    show ?thesis unfolding e using True splice_nth[OF lt lv c j] by simp
  next
    case False
    then have "?new ! i = rows target ! i"
      using v(2,3) i by (simp add: nth_append)
    then show ?thesis using False by simp
  qed
  have nth': "\<forall>i < length (rows target). \<forall>j < n. ?new ! i ! j =
               (if i < r \<and> c0 \<le> j \<and> j < c0 + tc then rows val ! i ! (j - c0)
                else rows target ! i ! j)"
    using nth by blast
  have R: "rows (target\<lparr>rows := ?new\<rparr>) = ?new" by simp
  show ?thesis
  proof (intro exI conjI)
    show "assign_block target r c0 tc val = Inr (target\<lparr>rows := ?new\<rparr>)" by (rule eq)
    show "ncols (target\<lparr>rows := ?new\<rparr>) = ncols target" by simp
    show "length (rows (target\<lparr>rows := ?new\<rparr>)) = length (rows target)"
      unfolding R by (rule len)
    show "\<forall>row \<in> set (rows (target\<lparr>rows := ?new\<rparr>)). length row = n"
      unfolding R by (rule rows_len)
    show "\<forall>i < length (rows target). \<forall>j < n.
            rows (target\<lparr>rows := ?new\<rparr>) ! i ! j =
              (if i < r \<and> c0 \<le> j \<and> j < c0 + tc then rows val ! i ! (j - c0)
               else rows target ! i ! j)"
      unfolding R by (rule nth')
  qed
qed


section \<open>An empty label file\<close>

text \<open>
  Claim C10. For a label file with no lines the expander returns \<open>None\<close>, not an array
  with zero rows; the linguistic and the fused branch of \<open>__getitem__\<close> then fail on its
  shape with \<open>AttributeError\<close>.
\<close>

theorem empty_label_file_gives_None:
  "get_utterance_conds_linguistic cats st [] = Inr None
   \<and> getitem_conds ''linguistic'' frames usize (get_utterance_conds_linguistic cats st []) acoustic
       = Inl AttributeError
   \<and> getitem_conds ''linguistic_lf0'' frames usize (get_utterance_conds_linguistic cats st [])
         (Inr a) = Inl AttributeError"
  by (simp add: get_utterance_conds_linguistic_def getitem_conds_def fuse_linguistic_lf0_def)


section \<open>Fusion of the linguistic and acoustic streams\<close>

lemma slice_upto_nat: "slice_upto n (int k) = min k n"
  by (simp add: slice_upto_def)

lemma wf_array_rows: "wf_array a \<longleftrightarrow> (\<forall>row \<in> set (rows a). length row = ncols a)"
  by (simp add: wf_array_def list_all_iff)

lemma last_two_cols_props:
  assumes "wf_array a" "2 \<le> ncols a"
  shows "ncols (last_two_cols a) = 2"
    and "length (rows (last_two_cols a)) = shape0 a"
    and "\<forall>row \<in> set (rows (last_two_cols a)). length row = 2"
    and "\<forall>i < shape0 a. \<forall>k < 2. rows (last_two_cols a) ! i ! k = rows a ! i ! (ncols a - 2 + k)"
proof -
  have st: "slice_start (ncols a) (- 2) = ncols a - 2"
    using assms(2) by (simp add: slice_start_def nat_diff_distrib')
  show "ncols (last_two_cols a) = 2" using assms(2) by (simp add: last_two_cols_def st)
  show "length (rows (last_two_cols a)) = shape0 a" by (simp add: last_two_cols_def shape0_def)
  show "\<forall>row \<in> set (rows (last_two_cols a)). length row = 2"
    using assms by (auto simp: last_two_cols_def st wf_array_rows)
  show "\<forall>i < shape0 a. \<forall>k < 2. rows (last_two_cols a) ! i ! k = rows a ! i ! (ncols a - 2 + k)"
  proof (intro allI impI)
    fix i k assume i: "i < shape0 a" and k: "k < (2::nat)"
    have "length (rows a ! i) = ncols a" using assms(1) i by (simp add: wf_array_rows shape0_def)
    then have "drop (ncols a - 2) (rows a ! i) ! k = rows a ! i ! (ncols a - 2 + k)"
      using assms(2) k by (intro nth_drop) simp
    then show "rows (last_two_cols a) ! i ! k = rows a ! i ! (ncols a - 2 + k)"
      using i by (simp add: last_two_cols_def st shape0_def)
  qed
qed

lemma fuse_layout:
  assumes wl: "wf_array ling" and wa: "wf_array acoustic"
    and sz: "2 \<le> utterance_size"
    and cl: "int (ncols ling) = utterance_size - 2"
    and ca: "2 \<le> ncols acoustic"
  shows "\<exists>c. fuse_linguistic_lf0 frames utterance_size (Some ling) acoustic = Inr c
          \<and> int (shape0 c) = max (max frames (int (shape0 ling))) (int (shape0 acoustic))
          \<and> int (ncols c) = utterance_size
          \<and> wf_array c
          \<and> (\<forall>i < shape0 c. \<forall>j < ncols c.
                rows c ! i ! j =
                  (if j < ncols c - 2
                   then (if i < shape0 ling then rows ling ! i ! j else 0)
                   else (if i < shape0 acoustic
                         then rows acoustic ! i ! (ncols acoustic - 2 + (j - (ncols c - 2)))
                         else 0)))"
proof -
  define n where "n = nat utterance_size"
  define L where "L = shape0 ling"
  define A where "A = shape0 acoustic"
  define len where "len = nat (max (max frames (int L)) (int A))"
  define Z where "Z = \<lparr>ncols = n, rows = replicate len (replicate n (0::real))\<rparr>"
  have n2: "2 \<le> n" and nsz: "int n = utterance_size" using sz by (simp_all add: n_def)
  have "0 \<le> max (max frames (int L)) (int A)" by linarith
  then have lenint: "int len = max (max frames (int L)) (int A)" by (simp only: len_def nat_0_le)
  have Llen: "L \<le> len" and Alen: "A \<le> len" using lenint by linarith+
  have zeros: "zeros (max (max frames (int L)) (int A)) utterance_size = Inr Z"
    using sz \<open>0 \<le> max (max frames (int L)) (int A)\<close>
    by (simp add: zeros_def Z_def n_def len_def del: max.bounded_iff max_less_iff_conj)
  have Zr: "length (rows Z) = len" "ncols Z = n" "shape0 Z = len"
    by (simp_all add: Z_def shape0_def)
  have Zw: "\<forall>row \<in> set (rows Z). length row = n" by (simp add: Z_def)
  have Zv: "rows Z ! i ! j = 0" if "i < len" "j < n" for i j using that by (simp add: Z_def)
  have su: "slice_upto n (utterance_size - 2) = n - 2"
    using sz by (simp add: slice_upto_def n_def nat_diff_distrib')
  have ss: "slice_start n (utterance_size - 2) = n - 2"
    using sz by (simp add: slice_start_def n_def nat_diff_distrib')
  have lc: "ncols ling = n - 2" using cl sz by (simp add: n_def nat_diff_distrib')
  have r1: "slice_upto len (int L) = L" using Llen by (simp add: slice_upto_nat)
  have r2: "slice_upto len (int A) = A" using Alen by (simp add: slice_upto_nat)
  have lw: "\<forall>row \<in> set (rows ling). length row = n - 2"
    using wl lc by (simp add: wf_array_rows)
  from assign_block_nth[of ling "n - 2" L Z n 0, OF lc _ _ Zw _ lw]
  obtain T where T: "assign_block Z L 0 (n - 2) ling = Inr T" "ncols T = n"
      "length (rows T) = len" "\<forall>row \<in> set (rows T). length row = n"
      "\<forall>i < len. \<forall>j < n. rows T ! i ! j =
          (if i < L \<and> 0 \<le> j \<and> j < 0 + (n - 2) then rows ling ! i ! (j - 0) else rows Z ! i ! j)"
    using Llen n2 by (auto simp: L_def shape0_def Zr)
  note lt = last_two_cols_props[OF wa ca]
  have c2: "n - 2 + 2 \<le> n" using n2 by simp
  from assign_block_nth[of "last_two_cols acoustic" 2 A T n "n - 2", OF lt(1) _ _ T(4) c2 lt(3)]
  obtain C where C: "assign_block T A (n - 2) 2 (last_two_cols acoustic) = Inr C" "ncols C = n"
      "length (rows C) = len" "\<forall>row \<in> set (rows C). length row = n"
      "\<forall>i < len. \<forall>j < n. rows C ! i ! j =
          (if i < A \<and> n - 2 \<le> j \<and> j < n - 2 + 2
           then rows (last_two_cols acoustic) ! i ! (j - (n - 2)) else rows T ! i ! j)"
    using Alen lt(2) T(2,3) by (auto simp: A_def)
  have n22: "n - (n - 2) = 2" using n2 by simp
  have Cel: "rows C ! i ! j =
               (if i < A \<and> n - 2 \<le> j then rows (last_two_cols acoustic) ! i ! (j - (n - 2))
                else rows T ! i ! j)" if "i < len" "j < n" for i j
  proof -
    have "j < n - 2 + 2" using that(2) n2 by linarith
    then show ?thesis using C(5) that by simp
  qed
  have Tel: "rows T ! i ! j = (if i < L \<and> j < n - 2 then rows ling ! i ! j else 0)"
    if "i < len" "j < n" for i j
    using T(5) that Zv by simp
  have run: "fuse_linguistic_lf0 frames utterance_size (Some ling) acoustic = Inr C"
  proof -
    have sT: "shape0 T = len" using T(3) by (simp add: shape0_def)
    show ?thesis
      by (simp add: fuse_linguistic_lf0_def Let_def zeros[unfolded L_def A_def] Zr sT T(2)
                    su ss r1[unfolded L_def] r2[unfolded A_def] n22
                    T(1)[unfolded L_def] C(1)[unfolded A_def])
  qed
  have elems: "rows C ! i ! j =
                  (if j < n - 2
                   then (if i < L then rows ling ! i ! j else 0)
                   else (if i < A then rows acoustic ! i ! (ncols acoustic - 2 + (j - (n - 2)))
                         else 0))"
    if i: "i < len" and j: "j < n" for i j
  proof (cases "j < n - 2")
    case True
    then have "rows C ! i ! j = rows T ! i ! j" using Cel[OF i j] by simp
    also have "\<dots> = (if i < L then rows ling ! i ! j else 0)"
      using Tel[OF i j] True by simp
    finally show ?thesis using True by simp
  next
    case False
    then have k: "j - (n - 2) < 2" using j by linarith
    show ?thesis
    proof (cases "i < A")
      case True
      then have "rows C ! i ! j = rows (last_two_cols acoustic) ! i ! (j - (n - 2))"
        using Cel[OF i j] False by simp
      also have "\<dots> = rows acoustic ! i ! (ncols acoustic - 2 + (j - (n - 2)))"
        using lt(4) True k by (simp add: A_def)
      finally show ?thesis using False True by simp
    next
      case nA: False
      then have "rows C ! i ! j = rows T ! i ! j" using Cel[OF i j] by simp
      also have "\<dots> = 0" using Tel[OF i j] False by simp
      finally show ?thesis using False nA by simp
    qed
  qed
  show ?thesis
  proof (intro exI conjI)
    show "fuse_linguistic_lf0 frames utterance_size (Some ling) acoustic = Inr C" by (rule run)
    show "int (shape0 C) = max (max frames (int (shape0 ling))) (int (shape0 acoustic))"
      using lenint C(3) by (simp add: shape0_def L_def A_def)
    show "int (ncols C) = utterance_size" using C(2) nsz by simp
    show "wf_array C" using C(2,4) by (simp add: wf_array_rows)
    show "\<forall>i < shape0 C. \<forall>j < ncols C.
            rows C ! i ! j =
              (if j < ncols C - 2
               then (if i < shape0 ling then rows ling ! i ! j else 0)
               else (if i < shape0 acoustic
                     then rows acoustic ! i ! (ncols acoustic - 2 + (j - (ncols C - 2)))
                     else 0))"
      using elems by (simp add: shape0_def C(2,3) L_def A_def)
  qed
qed

text \<open>
  Claim C6. In the \<open>linguistic_lf0\<close> mode, for a linguistic stream of \<open>L\<close> rows whose width
  is \<open>utterance_size - 2\<close> and an acoustic stream of \<open>A\<close> rows with at least two channels,
  the conditioning array has \<open>max(target_frames, L, A)\<close> rows and \<open>utterance_size\<close> columns;
  in all columns but the last two, rows below \<open>L\<close> hold the linguistic stream and the other
  rows are zero; in the last two columns, rows below \<open>A\<close> hold the last two channels of
  the acoustic stream and the other rows are zero.
\<close>

theorem fusion_mode_layout:
  assumes "wf_array ling" "wf_array acoustic" "2 \<le> utterance_size"
    and "int (ncols ling) = utterance_size - 2" "2 \<le> ncols acoustic"
  shows "\<exists>c. getitem_conds ''linguistic_lf0'' target_frames utterance_size
                (Inr (Some ling)) (Inr acoustic) = Inr c
          \<and> int (shape0 c)
                = max (max target_frames (int (shape0 ling))) (int (shape0 acoustic))
          \<and> int (ncols c) = utterance_size
          \<and> wf_array c
          \<and> (\<forall>i < shape0 c. \<forall>j < ncols c.
                rows c ! i ! j =
                  (if j < ncols c - 2
                   then (if i < shape0 ling then rows ling ! i ! j else 0)
                   else (if i < shape0 acoustic
                         then rows acoustic ! i ! (ncols acoustic - 2 + (j - (ncols c - 2)))
                         else 0)))"
proof -
  have "getitem_conds ''linguistic_lf0'' target_frames utterance_size
          (Inr (Some ling)) (Inr acoustic)
        = fuse_linguistic_lf0 target_frames utterance_size (Some ling) acoustic"
    by (simp add: getitem_conds_def)
  then show ?thesis using fuse_layout[OF assms, of target_frames] by simp
qed

theorem fusion_mode_layout_witness:
  "wf_array \<lparr>ncols = 2, rows = [[1, 2], [3, 4]]\<rparr>
   \<and> wf_array \<lparr>ncols = 3, rows = [[5, 6, 7], [8, 9, 10], [11, 12, 13], [14, 15, 16]]\<rparr>
   \<and> (2::int) \<le> 4
   \<and> int (ncols \<lparr>ncols = 2, rows = [[1, 2], [3, 4]]\<rparr>) = 4 - 2
   \<and> 2 \<le> ncols \<lparr>ncols = 3, rows = [[5, 6, 7], [8, 9, 10], [11, 12, 13], [14, 15, 16]]\<rparr>
   \<and> getitem_conds ''linguistic_lf0'' 3 4
         (Inr (Some \<lparr>ncols = 2, rows = [[1, 2], [3, 4]]\<rparr>))
         (Inr \<lparr>ncols = 3, rows = [[5, 6, 7], [8, 9, 10], [11, 12, 13], [14, 15, 16]]\<rparr>)
       = Inr \<lparr>ncols = 4, rows = [[1, 2, 6, 7], [3, 4, 9, 10], [0, 0, 12, 13], [0, 0, 15, 16]]\<rparr>
   \<and> (\<exists>c. getitem_conds ''linguistic_lf0'' 3 4
         (Inr (Some \<lparr>ncols = 2, rows = [[1, 2], [3, 4]]\<rparr>))
         (Inr \<lparr>ncols = 3, rows = [[5, 6, 7], [8, 9, 10], [11, 12, 13], [14, 15, 16]]\<rparr>)
          = Inr c \<and> shape0 c = 4 \<and> ncols c = 4)"
proof -
  let ?l = "\<lparr>ncols = 2, rows = [[1, 2], [3, 4::real]]\<rparr>"
  let ?a = "\<lparr>ncols = 3, rows = [[5, 6, 7], [8, 9, 10], [11, 12, 13], [14, 15, 16::real]]\<rparr>"
  have h: "wf_array ?l" "wf_array ?a" "(2::int) \<le> 4" "int (ncols ?l) = 4 - 2" "2 \<le> ncols ?a"
    by (simp_all add: wf_array_def)
  have v: "getitem_conds ''linguistic_lf0'' 3 4 (Inr (Some ?l)) (Inr ?a)
       = Inr \<lparr>ncols = 4, rows = [[1, 2, 6, 7], [3, 4, 9, 10], [0, 0, 12, 13], [0, 0, 15, 16]]\<rparr>"
    by (simp add: getitem_conds_def fuse_linguistic_lf0_def zeros_def assign_block_def
                  spread_def last_two_cols_def slice_upto_def slice_start_def shape0_def
                  Let_def numeral_eq_Suc)
  from fusion_mode_layout[OF h, of 3]
  obtain c where c: "getitem_conds ''linguistic_lf0'' 3 4 (Inr (Some ?l)) (Inr ?a) = Inr c"
      "int (shape0 c) = max (max 3 (int (shape0 ?l))) (int (shape0 ?a))" "int (ncols c) = 4"
    by blast
  have "shape0 c = 4" using c(2) by (simp add: shape0_def)
  moreover have "ncols c = 4" using c(3) by simp
  ultimately have "\<exists>c. getitem_conds ''linguistic_lf0'' 3 4 (Inr (Some ?l)) (Inr ?a) = Inr c
                      \<and> shape0 c = 4 \<and> ncols c = 4"
    using c(1) by blast
  then show ?thesis using h v by blast
qed


section \<open>The relative-duration column\<close>

lemma linspace01_length: "length (linspace01 num) = num"
  by (simp add: linspace01_def)

lemma linspace01_nth:
  assumes "2 \<le> num" "i < num"
  shows "linspace01 num ! i = real i / real (num - 1)"
proof (cases "i = num - 1")
  case True
  then show ?thesis using assms by (simp add: linspace01_def)
next
  case False
  then show ?thesis using assms by (simp add: linspace01_def)
qed

lemma linspace01_single: "linspace01 1 = [0]"
  by (simp add: linspace01_def)

lemma repeat_block_rows:
  assumes "2 \<le> length record" "0 \<le> int_of_float steps"
  shows "repeat_block record steps =
           Inr \<lparr>ncols = length record,
                rows = map (\<lambda>t. record[1 := t]) (linspace01 (nat (int_of_float steps)))\<rparr>"
  using assms by (simp add: repeat_block_def)

lemma repeat_block_column:
  assumes r: "2 \<le> length record" and s: "1 \<le> int_of_float steps"
  shows "\<exists>b. repeat_block record steps = Inr b
          \<and> shape0 b = nat (int_of_float steps)
          \<and> ncols b = length record
          \<and> (\<forall>i < shape0 b. rows b ! i ! 1 =
                (if shape0 b = 1 then 0 else real i / real (shape0 b - 1)))
          \<and> (\<forall>i < shape0 b. \<forall>j < length record. j \<noteq> 1 \<longrightarrow> rows b ! i ! j = record ! j)"
proof -
  define k where "k = nat (int_of_float steps)"
  let ?b = "\<lparr>ncols = length record, rows = map (\<lambda>t. record[1 := t]) (linspace01 k)\<rparr>"
  have k1: "1 \<le> k" using s by (simp add: k_def)
  have run: "repeat_block record steps = Inr ?b"
    using repeat_block_rows[OF r] s by (simp add: k_def)
  have sh: "shape0 ?b = k" by (simp add: shape0_def linspace01_length)
  have col: "rows ?b ! i ! 1 = (if k = 1 then 0 else real i / real (k - 1))" if "i < k" for i
  proof (cases "k = 1")
    case True
    then have "i = 0" "linspace01 k = [0]" using that by (simp_all add: linspace01_def)
    then show ?thesis using True r by simp
  next
    case False
    then have "2 \<le> k" using k1 by linarith
    then show ?thesis using that r False by (simp add: linspace01_length linspace01_nth)
  qed
  have other: "rows ?b ! i ! j = record ! j" if "i < k" "j \<noteq> 1" for i j
    using that by (simp add: linspace01_length)
  show ?thesis
  proof (intro exI conjI)
    show "repeat_block record steps = Inr ?b" by (rule run)
    show "shape0 ?b = nat (int_of_float steps)" using sh by (simp add: k_def)
    show "ncols ?b = length record" by simp
    show "\<forall>i < shape0 ?b. rows ?b ! i ! 1 =
            (if shape0 ?b = 1 then 0 else real i / real (shape0 ?b - 1))"
      unfolding sh using col by blast
    show "\<forall>i < shape0 ?b. \<forall>j < length record. j \<noteq> 1 \<longrightarrow> rows ?b ! i ! j = record ! j"
      unfolding sh using other by blast
  qed
qed

text \<open>
  Claim C8, as amended. For a segment whose step count \<open>k\<close> is at least 2, column 1 of
  its block is \<open>i / (k - 1)\<close> in row \<open>i\<close>: it starts at 0, ends at 1 and increases strictly.
  For a segment of a single step the column is the single value 0. The other columns
  repeat the record.
\<close>

theorem relative_duration_column:
  assumes "2 \<le> length record" "1 \<le> int_of_float steps"
  shows "\<exists>b. repeat_block record steps = Inr b
          \<and> shape0 b = nat (int_of_float steps)
          \<and> rows b ! 0 ! 1 = 0
          \<and> (2 \<le> shape0 b \<longrightarrow>
                rows b ! (shape0 b - 1) ! 1 = 1
              \<and> (\<forall>i < shape0 b. rows b ! i ! 1 = real i / real (shape0 b - 1))
              \<and> (\<forall>i < shape0 b. \<forall>j < shape0 b. i < j \<longrightarrow> rows b ! i ! 1 < rows b ! j ! 1))
          \<and> (shape0 b = 1 \<longrightarrow> map (\<lambda>row. row ! 1) (rows b) = [0])"
proof -
  from repeat_block_column[OF assms]
  obtain b where b: "repeat_block record steps = Inr b" "shape0 b = nat (int_of_float steps)"
      "\<forall>i < shape0 b. rows b ! i ! 1 = (if shape0 b = 1 then 0 else real i / real (shape0 b - 1))"
    by blast
  define k where "k = shape0 b"
  have k1: "1 \<le> k" using b(2) assms(2) by (simp add: k_def)
  have col: "rows b ! i ! 1 = (if k = 1 then 0 else real i / real (k - 1))" if "i < k" for i
    using b(3) that by (simp add: k_def)
  have first: "rows b ! 0 ! 1 = 0" using col[of 0] k1 by simp
  have big: "rows b ! (k - 1) ! 1 = 1
              \<and> (\<forall>i < k. rows b ! i ! 1 = real i / real (k - 1))
              \<and> (\<forall>i < k. \<forall>j < k. i < j \<longrightarrow> rows b ! i ! 1 < rows b ! j ! 1)" if k2: "2 \<le> k"
  proof (intro conjI allI impI)
    have ne: "k \<noteq> 1" and pos: "0 < real (k - 1)" using k2 by simp_all
    show "rows b ! (k - 1) ! 1 = 1" using col[of "k - 1"] k2 by simp
    show "rows b ! i ! 1 = real i / real (k - 1)" if "i < k" for i using col[OF that] ne by simp
    show "rows b ! i ! 1 < rows b ! j ! 1" if "i < k" "j < k" "i < j" for i j
    proof -
      have "real i / real (k - 1) < real j / real (k - 1)"
        using that(3) pos by (simp add: divide_strict_right_mono)
      then show ?thesis using col[OF that(1)] col[OF that(2)] ne by simp
    qed
  qed
  have single: "map (\<lambda>row. row ! 1) (rows b) = [0]" if "k = 1"
  proof -
    have "length (rows b) = 1" using that by (simp add: k_def shape0_def)
    then have "\<exists>r. rows b = [r]" by (simp add: length_Suc_conv)
    then obtain r where r: "rows b = [r]" ..
    have "rows b ! 0 ! 1 = 0" by (rule first)
    then show ?thesis by (simp add: r)
  qed
  show ?thesis
  proof (intro exI conjI impI)
    show "repeat_block record steps = Inr b" by (rule b(1))
    show "shape0 b = nat (int_of_float steps)" by (rule b(2))
    show "rows b ! 0 ! 1 = 0" by (rule first)
    show "rows b ! (shape0 b - 1) ! 1 = 1" if "2 \<le> shape0 b"
      using big[unfolded k_def, OF that] by (rule conjunct1)
    show "\<forall>i < shape0 b. rows b ! i ! 1 = real i / real (shape0 b - 1)" if "2 \<le> shape0 b"
      using big[unfolded k_def, OF that] by (rule conjunct1[OF conjunct2])
    show "\<forall>i < shape0 b. \<forall>j < shape0 b. i < j \<longrightarrow> rows b ! i ! 1 < rows b ! j ! 1"
      if "2 \<le> shape0 b"
      using big[unfolded k_def, OF that] by (rule conjunct2[OF conjunct2])
    show "map (\<lambda>row. row ! 1) (rows b) = [0]" if "shape0 b = 1"
      using single that unfolding k_def .
  qed
qed

theorem relative_duration_column_witness:
  "2 \<le> length [7, 8, 9 :: real] \<and> 1 \<le> int_of_float (steps_n 200000)
   \<and> repeat_block [7, 8, 9] (steps_n 200000)
       = Inr \<lparr>ncols = 3, rows = [[7, 0, 9], [7, 1 / 3, 9], [7, 2 / 3, 9], [7, 1, 9]]\<rparr>
   \<and> (\<exists>b. repeat_block [7, 8, 9] (steps_n 200000) = Inr b \<and> shape0 b = 4
          \<and> rows b ! 0 ! 1 = 0 \<and> rows b ! 3 ! 1 = 1)"
proof -
  have s: "int_of_float (steps_n 200000) = 4" by (simp add: steps_n_def int_of_float_def)
  have h: "2 \<le> length [7, 8, 9 :: real]" "1 \<le> int_of_float (steps_n 200000)"
    using s by simp_all
  have v: "repeat_block [7, 8, 9] (steps_n 200000)
       = Inr \<lparr>ncols = 3, rows = [[7, 0, 9], [7, 1 / 3, 9], [7, 2 / 3, 9], [7, 1, 9]]\<rparr>"
  proof -
    have "[0..<4] = [0, 1, 2, 3::nat]" by (simp add: upt_conv_Cons)
    then have "linspace01 4 = [0, 1 / 3, 2 / 3, 1]" by (simp add: linspace01_def)
    then show ?thesis by (simp add: repeat_block_def s)
  qed
  from relative_duration_column[OF h]
  obtain b where b: "repeat_block [7, 8, 9] (steps_n 200000) = Inr b"
      "shape0 b = nat (int_of_float (steps_n 200000))" "rows b ! 0 ! 1 = 0"
      "2 \<le> shape0 b \<longrightarrow> rows b ! (shape0 b - 1) ! 1 = 1"
    by blast
  have "shape0 b = 4" using b(2) s by simp
  moreover from this b(4) have "rows b ! 3 ! 1 = 1" by simp
  ultimately have "\<exists>b. repeat_block [7, 8, 9] (steps_n 200000) = Inr b \<and> shape0 b = 4
          \<and> rows b ! 0 ! 1 = 0 \<and> rows b ! 3 ! 1 = 1"
    using b(1,3) by blast
  then show ?thesis using h v by blast
qed

text \<open>
  Claim C8, as stated, fails for a segment of exactly one step (a duration of 50000):
  its block is a single row whose column 1 is 0, so the column never reaches 1.
\<close>

theorem single_step_column_is_zero:
  "int_of_float (steps_n 50000) = 1
   \<and> repeat_block [7, 8, 9] (steps_n 50000) = Inr \<lparr>ncols = 3, rows = [[7, 0, 9]]\<rparr>"
  by (simp add: repeat_block_def steps_n_def int_of_float_def linspace01_def)


section \<open>Vocabulary lookup in a label line\<close>



lemma subst_duration_ok:
  assumes "2 \<le> length l" "py_int (l ! 1) = Inr e" "py_int (l ! 0) = Inr s"
  shows "subst_duration w l = Inr (l[0 := take w (str_of_int (e - s))])"
  using assms by (simp add: subst_duration_def store_def)





lemma categorical_slots_range:
  "p \<in> set (categorical_slots cats) \<Longrightarrow> 2 \<le> snd p \<and> snd p \<le> 49"
  by (auto simp: categorical_slots_def)



section \<open>Durations and step counts\<close>

lemma digit_val_le: "is_digit c \<Longrightarrow> digit_val c \<le> 9"
  unfolding is_digit_def digit_val_def by linarith

lemma foldl_digits_bound:
  "list_all is_digit s \<Longrightarrow>
     foldl (\<lambda>a c. 10 * a + digit_val c) a s < (a + 1) * 10 ^ length s"
proof (induction s arbitrary: a)
  case Nil
  then show ?case by simp
next
  case (Cons c s)
  then have d: "digit_val c \<le> 9" and ds: "list_all is_digit s" by (simp_all add: digit_val_le)
  have "foldl (\<lambda>a c. 10 * a + digit_val c) (10 * a + digit_val c) s
          < (10 * a + digit_val c + 1) * 10 ^ length s"
    using Cons.IH[OF ds] .
  also have "\<dots> \<le> (10 * a + 10) * 10 ^ length s"
    using d by (intro mult_right_mono) simp_all
  also have "\<dots> = (a + 1) * 10 ^ length (c # s)" by (simp add: algebra_simps)
  finally show ?case by simp
qed

lemma nat_of_digits_bound:
  assumes "nat_of_digits s = Some m"
  shows "m < 10 ^ length s \<and> 1 \<le> length s"
proof -
  have ne: "s \<noteq> []" and ds: "list_all is_digit s"
    and m: "m = foldl (\<lambda>a c. 10 * a + digit_val c) 0 s"
    using assms by (auto simp: nat_of_digits_def split: if_splits)
  have "m < (0 + 1) * 10 ^ length s" unfolding m using ds by (rule foldl_digits_bound)
  moreover have "1 \<le> length s" using ne by (cases s) simp_all
  ultimately show ?thesis by simp
qed

lemma str_of_nat_length:
  "n < 10 ^ k \<Longrightarrow> 1 \<le> k \<Longrightarrow> length (str_of_nat n) \<le> k"
proof (induction n arbitrary: k rule: str_of_nat.induct)
  case (1 n)
  show ?case
  proof (cases "n < 10")
    case True
    then show ?thesis using "1.prems"(2) by (subst str_of_nat.simps) simp
  next
    case False
    obtain j where j: "k = Suc j" using "1.prems"(2) by (cases k) simp_all
    have "n div 10 < 10 ^ j" using "1.prems"(1) j by (simp add: less_mult_imp_div_less mult.commute)
    moreover have "1 \<le> j"
    proof (rule ccontr)
      assume "\<not> 1 \<le> j"
      then have "j = 0" by simp
      then show False using "1.prems"(1) j False by simp
    qed
    ultimately have "length (str_of_nat (n div 10)) \<le> j" using "1.IH"[OF False] by blast
    then show ?thesis using False j by (subst str_of_nat.simps) simp
  qed
qed

lemma width_ge: "i < length l \<Longrightarrow> length (l ! i) \<le> width l"
  unfolding width_def
proof (induction l arbitrary: i)
  case Nil
  then show ?case by simp
next
  case (Cons x l)
  show ?case
  proof (cases i)
    case 0
    then show ?thesis by simp
  next
    case (Suc j)
    then have "length (l ! j) \<le> foldr max (map length l) 1" using Cons by simp
    then show ?thesis using Suc by (simp add: le_max_iff_disj)
  qed
qed

lemma duration_fits:
  assumes "py_int (l ! 1) = Inr e" "0 \<le> d" "d \<le> e" "1 < length l"
  shows "length (str_of_int d) \<le> width l"
proof -
  obtain m where m: "nat_of_digits (l ! 1) = Some m" "e = int m"
    using assms(1) by (auto simp: py_int_def split: option.splits)
  have b: "m < 10 ^ length (l ! 1)" "1 \<le> length (l ! 1)" using nat_of_digits_bound[OF m(1)] by simp_all
  have "nat d \<le> m" using assms(2,3) m(2) by simp
  then have "nat d < 10 ^ length (l ! 1)" using b(1) by (rule le_less_trans)
  then have "length (str_of_nat (nat d)) \<le> length (l ! 1)" using b(2) by (rule str_of_nat_length)
  also have "\<dots> \<le> width l" using assms(4) by (rule width_ge)
  finally show ?thesis using assms(2) by (simp add: str_of_int_def)
qed

lemma steps_of_duration:
  assumes "0 \<le> d"
  shows "int_of_float (steps_n (real_of_int d)) = d div 50000"
proof -
  have e: "steps_n (real_of_int d) = real_of_int d / real_of_int 50000"
    unfolding steps_n_def by simp
  have "0 \<le> real_of_int d / real_of_int 50000" using assms by simp
  then have "int_of_float (real_of_int d / real_of_int 50000)
               = \<lfloor>real_of_int d / real_of_int 50000\<rfloor>"
    unfolding int_of_float_def by (rule if_P)
  also have "\<dots> = d div 50000" by (rule floor_divide_of_int_eq)
  finally show ?thesis unfolding e .
qed

section \<open>Shape of the block of one label line\<close>

lemma subst_category_result:
  assumes "subst_category w p l = Inr l'"
  shows "\<exists>v. l' = l[snd p := v]"
  using assms by (auto simp: subst_category_def store_def split: if_splits sum.splits)

lemma try_fold_untouched:
  assumes "try_fold (subst_category w) slots l = Inr l'"
  shows "length l' = length l \<and> (\<forall>j. j \<notin> snd ` set slots \<longrightarrow> l' ! j = l ! j)"
  using assms
proof (induction slots arbitrary: l)
  case Nil
  then show ?case by simp
next
  case (Cons p slots)
  from Cons.prems obtain l1 where l1: "subst_category w p l = Inr l1"
      "try_fold (subst_category w) slots l1 = Inr l'"
    by (auto split: sum.splits)
  obtain v where v: "l1 = l[snd p := v]" using subst_category_result[OF l1(1)] by blast
  have ih: "length l' = length l1" "\<forall>j. j \<notin> snd ` set slots \<longrightarrow> l' ! j = l1 ! j"
    using Cons.IH[OF l1(2)] by simp_all
  show ?case
  proof (intro conjI allI impI)
    show "length l' = length l" using ih(1) v by simp
    fix j assume j: "j \<notin> snd ` set (p # slots)"
    then have "j \<noteq> snd p" "j \<notin> snd ` set slots" by simp_all
    then show "l' ! j = l ! j" using ih(2) v by simp
  qed
qed

lemma try_map_nth:
  assumes "try_map f xs = Inr ys"
  shows "length ys = length xs \<and> (\<forall>i < length xs. f (xs ! i) = Inr (ys ! i))"
  using assms
proof (induction xs arbitrary: ys)
  case Nil
  then show ?case by simp
next
  case (Cons x xs)
  from Cons.prems obtain y ys' where y: "f x = Inr y" "try_map f xs = Inr ys'" "ys = y # ys'"
    by (auto split: sum.splits)
  have ih: "length ys' = length xs" "\<forall>i < length xs. f (xs ! i) = Inr (ys' ! i)"
    using Cons.IH[OF y(2)] by simp_all
  show ?case
  proof (intro conjI allI impI)
    show "length ys = length (x # xs)" using ih(1) y(3) by simp
    fix i assume "i < length (x # xs)"
    then show "f ((x # xs) ! i) = Inr (ys ! i)"
      using ih(2) y(1,3) by (cases i) simp_all
  qed
qed

lemma repeat_block_shape:
  assumes "repeat_block record steps = Inr b"
  shows "shape0 b = nat (int_of_float steps) \<and> ncols b = length record"
  using assms
  by (auto simp: repeat_block_def shape0_def linspace01_def split: if_splits)

lemma digits_not_unknown:
  assumes "0 \<le> d"
  shows "str_of_int d \<noteq> ''x''"
proof
  assume "str_of_int d = ''x''"
  then have "str_of_nat (nat d) = ''x''" using assms by (simp add: str_of_int_def)
  moreover have "list_all is_digit (str_of_nat (nat d))" using str_of_nat_digits by blast
  ultimately have "is_digit CHR ''x''" by simp
  then show False by (simp add: is_digit_def)
qed

lemma expand_line_shape:
  assumes run: "expand_line cats st l = Inr b"
    and s: "py_int (l ! 0) = Inr s" and e: "py_int (l ! 1) = Inr e" and se: "s \<le> e"
  shows "shape0 b = nat ((e - s) div 50000)"
proof -
  define w where "w = width l"
  define d where "d = e - s"
  have d0: "0 \<le> d" using se by (simp add: d_def)
  from run obtain l1 l2 l3 l4 where steps:
      "subst_duration w l = Inr l1"
      "try_fold (subst_category w) (categorical_slots cats) l1 = Inr l2"
      "try_map np_float (subst_unknown w l2) = Inr l3"
      "normalize st l3 = Inr l4"
      "repeat_block l4 (steps_n (l3 ! 0)) = Inr b"
    by (auto simp: expand_line_def Let_def w_def split: sum.splits)
  have len: "2 \<le> length l" using steps(1) by (auto simp: subst_duration_def split: if_splits)
  have de: "d \<le> e"
  proof -
    obtain m where "s = int m" using s by (auto simp: py_int_def split: option.splits)
    then show ?thesis by (simp add: d_def)
  qed
  have len1: "1 < length l" using len by simp
  have fits: "length (str_of_int d) \<le> w"
    unfolding w_def using e d0 de len1 by (rule duration_fits)
  have l1: "l1 = l[0 := str_of_int d]"
    using steps(1) subst_duration_ok[OF len e s, of w] fits by (simp add: d_def)
  have "0 \<notin> snd ` set (categorical_slots cats)"
    using categorical_slots_range by fastforce
  then have l2: "length l2 = length l1" "l2 ! 0 = l1 ! 0"
    using try_fold_untouched[OF steps(2)] by simp_all
  have "0 < length l" using len by linarith
  then have "l[0 := str_of_int d] ! 0 = str_of_int d" by (rule nth_list_update_eq)
  then have l20: "l2 ! 0 = str_of_int d" using l2(2) l1 by simp
  have "length l2 = length l" using l2(1) l1 by simp
  then have pos: "0 < length l2" using \<open>0 < length l\<close> by (simp only:)
  have "subst_unknown w l2 ! 0 = str_of_int d"
    using pos l20 digits_not_unknown[OF d0] by (simp add: subst_unknown_def)
  moreover have "np_float (subst_unknown w l2 ! 0) = Inr (l3 ! 0)"
    using try_map_nth[OF steps(3)] pos by (simp add: subst_unknown_def)
  ultimately have "l3 ! 0 = real_of_int d" by (simp add: np_float_str_of_int)
  then have "shape0 b = nat (int_of_float (steps_n (real_of_int d)))"
    using repeat_block_shape[OF steps(5)] by simp
  then show ?thesis using steps_of_duration[OF d0] by (simp add: d_def)
qed

section \<open>Row count of the linguistic expander\<close>

lemma append_block_rows:
  assumes "append_block acc b = Inr c"
  shows "case_option 0 shape0 c = case_option 0 shape0 acc + shape0 b"
  using assms by (auto simp: append_block_def shape0_def split: option.splits if_splits)

lemma expand_lines_rows:
  assumes "expand_lines cats st acc lab = Inr r"
    and "list_all2 (\<lambda>l (s, e). py_int (l ! 0) = Inr s \<and> py_int (l ! 1) = Inr e \<and> s \<le> e)
           lab bounds"
  shows "case_option 0 shape0 r
           = case_option 0 shape0 acc + (\<Sum>(s, e) \<leftarrow> bounds. nat ((e - s) div 50000))"
  using assms
proof (induction lab arbitrary: acc bounds)
  case Nil
  then show ?case by simp
next
  case (Cons l lab)
  from Cons.prems(2) obtain s e bs where bs: "bounds = (s, e) # bs"
      "py_int (l ! 0) = Inr s" "py_int (l ! 1) = Inr e" "s \<le> e"
      "list_all2 (\<lambda>l (s, e). py_int (l ! 0) = Inr s \<and> py_int (l ! 1) = Inr e \<and> s \<le> e) lab bs"
    by (auto simp: list_all2_Cons1)
  from Cons.prems(1) obtain b c where run: "expand_line cats st l = Inr b"
      "append_block acc b = Inr c" "expand_lines cats st c lab = Inr r"
    by (auto split: sum.splits)
  have "shape0 b = nat ((e - s) div 50000)"
    using run(1) bs(2,3,4) by (rule expand_line_shape)
  moreover have "case_option 0 shape0 c = case_option 0 shape0 acc + shape0 b"
    using run(2) by (rule append_block_rows)
  moreover have "case_option 0 shape0 r
      = case_option 0 shape0 c + (\<Sum>(s, e) \<leftarrow> bs. nat ((e - s) div 50000))"
    using run(3) bs(5) by (rule Cons.IH)
  ultimately show ?case by (simp add: bs(1))
qed

lemma ex_py_int:
  "py_int ''250000'' = Inr 250000" "py_int ''50000'' = Inr 50000" "py_int ''0'' = Inr 0"
  by (simp_all add: py_int_def nat_of_digits_def is_digit_def digit_val_def)

lemma ex_str:
  "str_of_int 200000 = ''200000''" "str_of_int 50000 = ''50000''" "str_of_int 0 = ''0''"
  "str_of_int 1 = ''1''"
  by (simp_all add: str_of_int_def str_of_nat.simps digit_char_def)

lemma ex_float:
  "np_float ''200000'' = Inr 200000" "np_float ''50000'' = Inr 50000" "np_float ''0'' = Inr 0"
  "np_float ''250000'' = Inr 250000" "np_float ''1'' = Inr 1"
  by (simp_all add: np_float_def nat_of_digits_def is_digit_def digit_val_def)

lemma ex_steps: "int_of_float (steps_n 200000) = 4" "int_of_float (steps_n 50000) = 1"
  by (simp_all add: steps_n_def int_of_float_def)

lemma ex_first_segment:
  "expand_line \<lparr>phonemes = [''a''], vowels = [''a''], gpos = [''a''], tobi = [''a'']\<rparr>
      \<lparr>means = [0], scales = [1]\<rparr>
      ([''0'', ''50000''] @ replicate 5 ''a'' @ replicate 20 ''x'' @ [''a''] @ replicate 3 ''x'' @ [''a'', ''x'', ''a'']
       @ replicate 7 ''x'' @ [''a''] @ replicate 7 ''x'' @ [''a''] @ replicate 5 ''x'')
   = Inr \<lparr>ncols = 55, rows = [[50000, 0] @ replicate 53 0]\<rparr>"
proof -
  have w: "width ([''0'', ''50000''] @ replicate 5 ''a'' @ replicate 20 ''x'' @ [''a''] @ replicate 3 ''x'' @ [''a'', ''x'', ''a'']
       @ replicate 7 ''x'' @ [''a''] @ replicate 7 ''x'' @ [''a''] @ replicate 5 ''x'') = 5"
    by (simp add: width_def eval_nat_numeral)
  show ?thesis
    unfolding expand_line_def w Let_def
    by (simp add: eval_nat_numeral subst_duration_def ex_py_int store_def ex_str
          categorical_slots_def subst_category_def subst_unknown_def ex_float
          normalize_def broadcast2_def repeat_block_def ex_steps linspace01_def)
qed

lemma ex_second_segment:
  "expand_line \<lparr>phonemes = [''a''], vowels = [''a''], gpos = [''a''], tobi = [''a'']\<rparr>
      \<lparr>means = [0], scales = [1]\<rparr>
      ([''50000'', ''250000''] @ replicate 5 ''a'' @ replicate 20 ''x'' @ [''a''] @ replicate 3 ''x'' @ [''a'', ''x'', ''a'']
       @ replicate 7 ''x'' @ [''a''] @ replicate 7 ''x'' @ [''a''] @ replicate 5 ''x'')
   = Inr \<lparr>ncols = 55, rows = [[200000, 0] @ replicate 53 0, [200000, 1 / 3] @ replicate 53 0,
                               [200000, 2 / 3] @ replicate 53 0, [200000, 1] @ replicate 53 0]\<rparr>"
proof -
  have w: "width ([''50000'', ''250000''] @ replicate 5 ''a'' @ replicate 20 ''x'' @ [''a''] @ replicate 3 ''x'' @ [''a'', ''x'', ''a'']
       @ replicate 7 ''x'' @ [''a''] @ replicate 7 ''x'' @ [''a''] @ replicate 5 ''x'') = 6"
    by (simp add: width_def eval_nat_numeral)
  have u: "[0..<4] = [0, 1, 2, 3::nat]" by (simp add: upt_conv_Cons)
  show ?thesis
    unfolding expand_line_def w Let_def
    by (simp add: eval_nat_numeral subst_duration_def ex_py_int store_def ex_str
          categorical_slots_def subst_category_def subst_unknown_def ex_float
          normalize_def broadcast2_def repeat_block_def ex_steps linspace01_def u)
qed


text \<open>
  Claim C1, as amended. The source multiplies the duration by \<open>10E-5\<close>, which is
  \<open>1e-4\<close>: a segment contributes \<open>floor(duration * 1e-4 / 5) = duration div 50000\<close>
  rows. When the expander returns a matrix for a label file whose lines have the
  boundaries \<open>bounds\<close>, each with \<open>start \<le> end\<close>, the number of its rows is the sum of
  \<open>(end - start) div 50000\<close> over the lines.
\<close>

theorem linguistic_row_count:
  assumes "get_utterance_conds_linguistic cats st lab = Inr (Some m)"
    and "list_all2 (\<lambda>l (s, e). py_int (l ! 0) = Inr s \<and> py_int (l ! 1) = Inr e \<and> s \<le> e)
           lab bounds"
  shows "shape0 m = (\<Sum>(s, e) \<leftarrow> bounds. nat ((e - s) div 50000))"
  using expand_lines_rows[OF assms(1)[unfolded get_utterance_conds_linguistic_def] assms(2)]
  by simp

theorem linguistic_row_count_witness:
  "get_utterance_conds_linguistic \<lparr>phonemes = [''a''], vowels = [''a''], gpos = [''a''], tobi = [''a'']\<rparr>
      \<lparr>means = [0], scales = [1]\<rparr>
      [[''50000'', ''250000''] @ replicate 5 ''a'' @ replicate 20 ''x'' @ [''a''] @ replicate 3 ''x'' @ [''a'', ''x'', ''a'']
       @ replicate 7 ''x'' @ [''a''] @ replicate 7 ''x'' @ [''a''] @ replicate 5 ''x'']
     = Inr (Some \<lparr>ncols = 55, rows = [[200000, 0] @ replicate 53 0, [200000, 1 / 3] @ replicate 53 0,
                                     [200000, 2 / 3] @ replicate 53 0, [200000, 1] @ replicate 53 0]\<rparr>)
   \<and> list_all2 (\<lambda>l (s, e). py_int (l ! 0) = Inr s \<and> py_int (l ! 1) = Inr e \<and> s \<le> e)
        [[''50000'', ''250000''] @ replicate 5 ''a'' @ replicate 20 ''x'' @ [''a''] @ replicate 3 ''x'' @ [''a'', ''x'', ''a'']
       @ replicate 7 ''x'' @ [''a''] @ replicate 7 ''x'' @ [''a''] @ replicate 5 ''x'']
        [(50000, 250000)]
   \<and> shape0 \<lparr>ncols = 55, rows = [[200000, 0] @ replicate 53 0, [200000, 1 / 3] @ replicate 53 0,
                                  [200000, 2 / 3] @ replicate 53 0, [200000, 1] @ replicate 53 0]\<rparr>
       = (\<Sum>(s, e) \<leftarrow> [(50000, 250000)]. nat ((e - s) div 50000))"
proof -
  let ?B = "[''50000'', ''250000''] @ replicate 5 ''a'' @ replicate 20 ''x'' @ [''a''] @ replicate 3 ''x'' @ [''a'', ''x'', ''a'']
       @ replicate 7 ''x'' @ [''a''] @ replicate 7 ''x'' @ [''a''] @ replicate 5 ''x''"
  let ?m = "\<lparr>ncols = 55, rows = [[200000, 0] @ replicate 53 0, [200000, 1 / 3] @ replicate 53 0,
                                  [200000, 2 / 3] @ replicate 53 0, [200000, 1] @ replicate 53 0]\<rparr>"
  have a: "get_utterance_conds_linguistic \<lparr>phonemes = [''a''], vowels = [''a''], gpos = [''a''], tobi = [''a'']\<rparr>
             \<lparr>means = [0], scales = [1]\<rparr> [?B] = Inr (Some ?m)"
    unfolding get_utterance_conds_linguistic_def expand_lines.simps ex_second_segment
    by (simp add: append_block_def)
  have b: "list_all2 (\<lambda>l (s, e). py_int (l ! 0) = Inr s \<and> py_int (l ! 1) = Inr e \<and> s \<le> e)
             [?B] [(50000, 250000)]"
    by (simp add: ex_py_int)
  from linguistic_row_count[OF a b] a b show ?thesis by blast
qed

text \<open>
  Claim C1, as stated, fails on its own example: for the segments \<open>(0, 50000)\<close> and
  \<open>(50000, 250000)\<close> the expander returns five rows, the first of them from the first
  segment, whose step count is 1 where \<open>floor(50000 * 1e-5 / 5)\<close> is 0.
\<close>

theorem linguistic_example_emits_five_rows:
  "get_utterance_conds_linguistic \<lparr>phonemes = [''a''], vowels = [''a''], gpos = [''a''], tobi = [''a'']\<rparr>
      \<lparr>means = [0], scales = [1]\<rparr>
      [[''0'', ''50000''] @ replicate 5 ''a'' @ replicate 20 ''x'' @ [''a''] @ replicate 3 ''x'' @ [''a'', ''x'', ''a'']
       @ replicate 7 ''x'' @ [''a''] @ replicate 7 ''x'' @ [''a''] @ replicate 5 ''x'',
       [''50000'', ''250000''] @ replicate 5 ''a'' @ replicate 20 ''x'' @ [''a''] @ replicate 3 ''x'' @ [''a'', ''x'', ''a'']
       @ replicate 7 ''x'' @ [''a''] @ replicate 7 ''x'' @ [''a''] @ replicate 5 ''x'']
     = Inr (Some \<lparr>ncols = 55, rows = [[50000, 0] @ replicate 53 0,
                                     [200000, 0] @ replicate 53 0, [200000, 1 / 3] @ replicate 53 0,
                                     [200000, 2 / 3] @ replicate 53 0, [200000, 1] @ replicate 53 0]\<rparr>)
   \<and> int_of_float (steps_n 50000) = 1
   \<and> \<lfloor>50000 * (1 / 10 ^ 5) / 5 :: real\<rfloor> = 0"
proof -
  have "\<lfloor>50000 * (1 / 10 ^ 5) / 5 :: real\<rfloor> = 0" by (simp add: floor_eq_iff)
  then show ?thesis
    unfolding get_utterance_conds_linguistic_def expand_lines.simps
      ex_first_segment ex_second_segment
    by (simp add: append_block_def ex_steps)
qed

section \<open>Vocabulary lookup and the unknown marker\<close>





end
